theory Spec2Isabelle
  imports Main
begin

section \<open>Data model of maze.cpp\<close>

text \<open>
  \<^verbatim>\<open>struct Adjacency { bool to_east : 1; bool to_south : 1; }\<close>, default constructed
  with both flags false.  \<^verbatim>\<open>Connections\<close> is a vector of rows, \<^verbatim>\<open>Pos\<close>
  is the pair (y, x), \<^verbatim>\<open>Path\<close> a vector of positions (start first),
  \<^verbatim>\<open>Mask\<close> a set of positions (the parameter \<^verbatim>\<open>mask\<close> is written \<open>msk\<close>).
  The C++ \<^verbatim>\<open>int\<close> is modelled by \<open>int\<close>: all coordinates the program computes
  stay between -1 and Width or Height.
\<close>

record Adjacency =
  to_east :: bool
  to_south :: bool

type_synonym Connections = "Adjacency list list"
type_synonym Pos = "int \<times> int"
type_synonym Path = "Pos list"
type_synonym Mask = "Pos set"

definition Adjacency0 :: Adjacency where
  "Adjacency0 = \<lparr>to_east = False, to_south = False\<rparr>"

text \<open>
  What the C++ leaves undefined is an error value of the model: a remainder by zero, an
  index outside a vector (also \<^verbatim>\<open>back()\<close> of an empty vector), and the
  \<^verbatim>\<open>std::length_error\<close> that \<^verbatim>\<open>resize\<close> throws for a negative size.
\<close>

datatype error = DivByZero | OutOfBounds | LengthError

text \<open>\<^verbatim>\<open>adj[y][x]\<close>, with the bounds of both vectors checked.\<close>

definition adj_at :: "Connections \<Rightarrow> int \<Rightarrow> int \<Rightarrow> error + Adjacency" where
  "adj_at adj y x =
     (if 0 \<le> y \<and> nat y < length adj \<and> 0 \<le> x \<and> nat x < length (adj ! nat y)
      then Inr (adj ! nat y ! nat x) else Inl OutOfBounds)"

text \<open>The C++ remainder \<^verbatim>\<open>a % b\<close>: truncated, undefined for \<open>b = 0\<close>.\<close>

definition c_mod :: "int \<Rightarrow> int \<Rightarrow> error + int" where
  "c_mod a b = (if b = 0 then Inl DivByZero else Inr (sgn a * (\<bar>a\<bar> mod \<bar>b\<bar>)))"

text \<open>\<^verbatim>\<open>v.resize(n)\<close> on a vector whose elements default to \<open>d\<close>.\<close>

definition resize :: "int \<Rightarrow> 'a \<Rightarrow> 'a list \<Rightarrow> error + 'a list" where
  "resize n d v =
     (if n < 0 then Inl LengthError
      else Inr (take (nat n) v @ replicate (nat n - length v) d))"

section \<open>Solve\<close>

text \<open>
  The lambda \<^verbatim>\<open>step\<close>: the path extended by \<open>p2\<close> is pushed on the fringe unless
  \<open>p2\<close> is already on the path.  The fringe is a vector used as a stack: its back is
  the last element of the list.
\<close>

definition step :: "Path list \<Rightarrow> Path \<Rightarrow> Pos \<Rightarrow> Path list" where
  "step fringe some_path p2 =
     (if p2 \<notin> set some_path then fringe @ [some_path @ [p2]] else fringe)"

text \<open>
  The four neighbour tests of the loop body, in the order of the source.  The left
  operand of each \<^verbatim>\<open>&&\<close> is evaluated first, and the array is read only when it holds.
\<close>

definition try_north :: "Connections \<Rightarrow> Path \<Rightarrow> Path list \<Rightarrow> error + Path list" where
  "try_north adj some_path fringe =
     (let p1 = last some_path; p2 = (fst p1 - 1, snd p1) in
      if fst p2 \<ge> 0 then
        (case adj_at adj (fst p2) (snd p2) of
           Inl e \<Rightarrow> Inl e
         | Inr a \<Rightarrow> Inr (if to_south a then step fringe some_path p2 else fringe))
      else Inr fringe)"

definition try_east :: "Connections \<Rightarrow> int \<Rightarrow> Path \<Rightarrow> Path list \<Rightarrow> error + Path list" where
  "try_east adj Width some_path fringe =
     (let p1 = last some_path; p2 = (fst p1, snd p1 + 1) in
      if snd p2 < Width then
        (case adj_at adj (fst p1) (snd p1) of
           Inl e \<Rightarrow> Inl e
         | Inr a \<Rightarrow> Inr (if to_east a then step fringe some_path p2 else fringe))
      else Inr fringe)"

definition try_south :: "Connections \<Rightarrow> int \<Rightarrow> Path \<Rightarrow> Path list \<Rightarrow> error + Path list" where
  "try_south adj Height some_path fringe =
     (let p1 = last some_path; p2 = (fst p1 + 1, snd p1) in
      if fst p2 < Height then
        (case adj_at adj (fst p1) (snd p1) of
           Inl e \<Rightarrow> Inl e
         | Inr a \<Rightarrow> Inr (if to_south a then step fringe some_path p2 else fringe))
      else Inr fringe)"

definition try_west :: "Connections \<Rightarrow> Path \<Rightarrow> Path list \<Rightarrow> error + Path list" where
  "try_west adj some_path fringe =
     (let p1 = last some_path; p2 = (fst p1, snd p1 - 1) in
      if snd p2 \<ge> 0 then
        (case adj_at adj (fst p2) (snd p2) of
           Inl e \<Rightarrow> Inl e
         | Inr a \<Rightarrow> Inr (if to_east a then step fringe some_path p2 else fringe))
      else Inr fringe)"

definition expand :: "Connections \<Rightarrow> int \<Rightarrow> int \<Rightarrow> Path \<Rightarrow> Path list \<Rightarrow> error + Path list" where
  "expand adj Width Height some_path fringe =
     (case try_north adj some_path fringe of Inl e \<Rightarrow> Inl e | Inr f1 \<Rightarrow>
      case try_east adj Width some_path f1 of Inl e \<Rightarrow> Inl e | Inr f2 \<Rightarrow>
      case try_south adj Height some_path f2 of Inl e \<Rightarrow> Inl e | Inr f3 \<Rightarrow>
      try_west adj some_path f3)"

text \<open>
  The \<^verbatim>\<open>while( !fringe.empty() )\<close> loop.  It may not return, so it is a partial
  function: \<open>None\<close> is a run that never leaves the loop.  A run that returns gives the
  boolean result and the contents of \<^verbatim>\<open>path_out\<close> at the return.
\<close>

partial_function (option) solve_loop ::
  "Connections \<Rightarrow> int \<Rightarrow> int \<Rightarrow> int \<Rightarrow> int \<Rightarrow> Path \<Rightarrow> Path list \<Rightarrow> (error + bool \<times> Path) option"
where
  "solve_loop adj Width Height fx fy path_out fringe =
     (if fringe = [] then Some (Inr (False, path_out))
      else
        let some_path = last fringe; fringe1 = butlast fringe in
        if some_path = [] then Some (Inl OutOfBounds)
        else
          let p1 = last some_path in
          if fst p1 = fy \<and> snd p1 = fx then Some (Inr (True, some_path))
          else
            (case expand adj Width Height some_path fringe1 of
               Inl e \<Rightarrow> Some (Inl e)
             | Inr fringe2 \<Rightarrow> solve_loop adj Width Height fx fy path_out fringe2))"

declare solve_loop.simps [code]

definition Solve ::
  "Connections \<Rightarrow> int \<Rightarrow> int \<Rightarrow> int \<Rightarrow> int \<Rightarrow> int \<Rightarrow> int \<Rightarrow> Path \<Rightarrow> (error + bool \<times> Path) option"
where
  "Solve adj Width Height sx sy fx fy path_out =
     solve_loop adj Width Height fx fy path_out [[(sy, sx)]]"

section \<open>Generate\<close>

subsection \<open>The local class EqClass\<close>

text \<open>
  Every \<^verbatim>\<open>EqClass\<close> object lives in \<^verbatim>\<open>pos2ec[y][x]\<close>, so its address is the
  position (y, x), and the heap of \<^verbatim>\<open>rep\<close> pointers is a function from positions to
  positions.  The constructor sets \<^verbatim>\<open>rep\<close> to \<^verbatim>\<open>this\<close>.  \<^verbatim>\<open>find_rep\<close> is
  recursive and writes the representative back into every object on the way; on a
  cyclic heap it would not return, so it is a partial function.
\<close>

type_synonym ec_heap = "Pos \<Rightarrow> Pos"

partial_function (option) find_rep :: "ec_heap \<Rightarrow> Pos \<Rightarrow> (ec_heap \<times> Pos) option" where
  "find_rep h this =
     (if h this \<noteq> this
      then Option.bind (find_rep h (h this)) (\<lambda>(h', r). Some (h'(this := r), r))
      else Some (h, h this))"

declare find_rep.simps [code]

definition merge :: "ec_heap \<Rightarrow> Pos \<Rightarrow> Pos \<Rightarrow> ec_heap option" where
  "merge h this other =
     Option.bind (find_rep h this) (\<lambda>(h1, r1).
     Option.bind (find_rep h1 other) (\<lambda>(h2, r2).
     Some (if r1 \<noteq> r2 then h2(r2 := r1) else h2)))"

text \<open>
  \<^verbatim>\<open>operator==\<close>.  Both calls compress paths; the heap after the two calls does not
  depend on their order, the model takes the left operand first.
\<close>

definition ec_eq :: "ec_heap \<Rightarrow> Pos \<Rightarrow> Pos \<Rightarrow> (ec_heap \<times> bool) option" where
  "ec_eq h this other =
     Option.bind (find_rep h this) (\<lambda>(h1, r1).
     Option.bind (find_rep h1 other) (\<lambda>(h2, r2).
     Some (h2, r1 = r2)))"

subsection \<open>The loop\<close>

text \<open>
  The state of the loop: the grid under construction, the heap of the \<^verbatim>\<open>pos2ec\<close>
  objects, the number of \<^verbatim>\<open>rand()\<close> calls made so far, and the two counters.  The
  stream of values \<^verbatim>\<open>rand()\<close> returns after \<^verbatim>\<open>srand(seed)\<close> is a function
  \<open>rng\<close> from the call number to the value.
\<close>

record gen_state =
  adj_out :: Connections
  pos2ec :: ec_heap
  rand_calls :: nat
  total_iterations :: int
  productive_iterations :: int

datatype wall = East | South

fun beyond :: "wall \<Rightarrow> Pos \<Rightarrow> Pos" where
  "beyond East (y, x) = (y, x + 1)"
| "beyond South (y, x) = (y + 1, x)"

fun flag :: "wall \<Rightarrow> Adjacency \<Rightarrow> bool" where
  "flag East a = to_east a"
| "flag South a = to_south a"

fun raise_flag :: "wall \<Rightarrow> Adjacency \<Rightarrow> Adjacency" where
  "raise_flag East a = a\<lparr>to_east := True\<rparr>"
| "raise_flag South a = a\<lparr>to_south := True\<rparr>"

definition in_grid :: "int \<Rightarrow> int \<Rightarrow> Pos \<Rightarrow> bool" where
  "in_grid Width Height p \<longleftrightarrow> 0 \<le> fst p \<and> fst p < Height \<and> 0 \<le> snd p \<and> snd p < Width"

text \<open>\<^verbatim>\<open>adj_out[y][x].to_east = true\<close> (or \<^verbatim>\<open>to_south\<close>); the index is known to be valid.\<close>

definition set_wall :: "wall \<Rightarrow> Connections \<Rightarrow> Pos \<Rightarrow> Connections" where
  "set_wall w adj p =
     adj[nat (fst p) := (adj ! nat (fst p))[nat (snd p) := raise_flag w (adj ! nat (fst p) ! nat (snd p))]]"

text \<open>
  The body of one branch of the loop, after the wall \<open>w\<close> of the cell \<open>(y, x)\<close> has been
  drawn.  The two branches of the source differ only in the flag they test and set and
  in the neighbour, which \<open>w\<close> selects.  The result \<open>(False, st)\<close> is a \<^verbatim>\<open>continue\<close>;
  \<open>(True, st)\<close> falls through to the test after the branches.  \<^verbatim>\<open>pos2ec\<close> has the
  dimensions Height and Width.
\<close>

definition knock ::
  "wall \<Rightarrow> int \<Rightarrow> int \<Rightarrow> Mask \<Rightarrow> Pos \<Rightarrow> gen_state \<Rightarrow> (error + bool \<times> gen_state) option"
where
  "knock w Width Height msk p st =
     (if p \<in> msk then Some (Inr (False, st))
      else case adj_at (adj_out st) (fst p) (snd p) of
        Inl e \<Rightarrow> Some (Inl e)
      | Inr a \<Rightarrow>
          if flag w a then Some (Inr (False, st))
          else if \<not> (in_grid Width Height p \<and> in_grid Width Height (beyond w p))
          then Some (Inl OutOfBounds)
          else Option.bind (ec_eq (pos2ec st) p (beyond w p)) (\<lambda>(h1, same).
            if same then Some (Inr (False, st\<lparr>pos2ec := h1\<rparr>))
            else Option.bind (merge h1 p (beyond w p)) (\<lambda>h2.
              Some (Inr (True, st\<lparr>adj_out := set_wall w (adj_out st) p, pos2ec := h2\<rparr>)))))"

text \<open>
  One iteration.  \<open>Inr (Inl st)\<close> goes round the loop again, \<open>Inr (Inr st)\<close> is the
  \<^verbatim>\<open>break\<close>.  The three \<^verbatim>\<open>rand()\<close> calls are made in the order of the source.
\<close>

datatype 'a ctl = Continue 'a | Break 'a

definition rand :: "(nat \<Rightarrow> nat) \<Rightarrow> gen_state \<Rightarrow> int" where
  "rand rng st = int (rng (rand_calls st))"

definition drawn :: "gen_state \<Rightarrow> gen_state" where
  "drawn st = st\<lparr>rand_calls := Suc (rand_calls st)\<rparr>"

definition gen_iter ::
  "(nat \<Rightarrow> nat) \<Rightarrow> int \<Rightarrow> int \<Rightarrow> Pos \<Rightarrow> Pos \<Rightarrow> Mask \<Rightarrow> gen_state \<Rightarrow> (error + gen_state ctl) option"
where
  "gen_iter rng Width Height start finish msk st =
     (let r0 = rand rng st; st1 = drawn st;
          w = (if r0 mod 2 = 0 then East else South);
          r1 = rand rng st1; st2 = drawn st1;
          r2 = rand rng st2; st3 = drawn st2
      in case (if w = East then c_mod r1 (Width - 1) else c_mod r1 Width) of
           Inl e \<Rightarrow> Some (Inl e)
         | Inr x \<Rightarrow>
        (case (if w = East then c_mod r2 Height else c_mod r2 (Height - 1)) of
           Inl e \<Rightarrow> Some (Inl e)
         | Inr y \<Rightarrow>
        (case knock w Width Height msk (y, x) st3 of
           None \<Rightarrow> None
         | Some (Inl e) \<Rightarrow> Some (Inl e)
         | Some (Inr (False, st4)) \<Rightarrow> Some (Inr (Continue st4))
         | Some (Inr (True, st4)) \<Rightarrow>
             (let st5 = st4\<lparr>productive_iterations := productive_iterations st4 + 1\<rparr> in
              if \<not> (in_grid Width Height start \<and> in_grid Width Height finish)
              then Some (Inl OutOfBounds)
              else case ec_eq (pos2ec st5) start finish of
                None \<Rightarrow> None
              | Some (h, same) \<Rightarrow>
                  if same then Some (Inr (Break (st5\<lparr>pos2ec := h\<rparr>)))
                  else Some (Inr (Continue (st5\<lparr>pos2ec := h\<rparr>)))))))"

text \<open>
  The \<^verbatim>\<open>for(;; ++total_iterations)\<close> loop, with fuel: \<open>None\<close> is a run that is still in
  the loop after that many iterations.
\<close>

fun gen_loop ::
  "nat \<Rightarrow> (nat \<Rightarrow> nat) \<Rightarrow> int \<Rightarrow> int \<Rightarrow> Pos \<Rightarrow> Pos \<Rightarrow> Mask \<Rightarrow> gen_state \<Rightarrow> (error + gen_state) option"
where
  "gen_loop 0 rng Width Height start finish msk st = None"
| "gen_loop (Suc n) rng Width Height start finish msk st =
     (case gen_iter rng Width Height start finish msk st of
        None \<Rightarrow> None
      | Some (Inl e) \<Rightarrow> Some (Inl e)
      | Some (Inr (Break st')) \<Rightarrow> Some (Inr st')
      | Some (Inr (Continue st')) \<Rightarrow>
          gen_loop n rng Width Height start finish msk
            (st'\<lparr>total_iterations := total_iterations st' + 1\<rparr>))"

text \<open>
  The initialisation: \<^verbatim>\<open>adj_out.clear(); adj_out.resize(Height);\<close> and every row resized
  to Width; \<^verbatim>\<open>pos2ec\<close> likewise, every object its own representative.
\<close>

fun resize_rows :: "int \<Rightarrow> Adjacency list list \<Rightarrow> error + Adjacency list list" where
  "resize_rows Width [] = Inr []"
| "resize_rows Width (row # rows) =
     (case resize Width Adjacency0 row of
        Inl e \<Rightarrow> Inl e
      | Inr row' \<Rightarrow> (case resize_rows Width rows of Inl e \<Rightarrow> Inl e | Inr rows' \<Rightarrow> Inr (row' # rows')))"

definition init_grid :: "Connections \<Rightarrow> int \<Rightarrow> int \<Rightarrow> error + Connections" where
  "init_grid adj Width Height =
     (let cleared = [] in
      case resize Height [] cleared of
        Inl e \<Rightarrow> Inl e
      | Inr rows \<Rightarrow> resize_rows Width rows)"

definition init_state :: "Connections \<Rightarrow> gen_state" where
  "init_state adj =
     \<lparr>adj_out = adj, pos2ec = (\<lambda>p. p), rand_calls = 0,
      total_iterations = 0, productive_iterations = 0\<rparr>"

text \<open>
  \<^verbatim>\<open>Generate\<close>: the result is the contents of \<^verbatim>\<open>adj_out\<close> at the return (the
  statistic it prints is not modelled).  The argument \<open>adj\<close> is what \<^verbatim>\<open>adj_out\<close>
  holds at the call.
\<close>

definition Generate ::
  "nat \<Rightarrow> (nat \<Rightarrow> nat) \<Rightarrow> Connections \<Rightarrow> int \<Rightarrow> int \<Rightarrow> int \<Rightarrow> int \<Rightarrow> int \<Rightarrow> int \<Rightarrow> Mask
    \<Rightarrow> (error + Connections) option"
where
  "Generate fuel rng adj Width Height sx sy fx fy msk =
     (case init_grid adj Width Height of
        Inl e \<Rightarrow> Some (Inl e)
      | Inr adj0 \<Rightarrow>
          map_option (map_sum id adj_out)
            (gen_loop fuel rng Width Height (sy, sx) (fy, fx) msk (init_state adj0)))"

section \<open>Notions used to state the properties\<close>

text \<open>
  A grid is well formed for Width and Height when it has Height rows of Width cells each,
  as after the initialisation in \<^verbatim>\<open>Generate\<close>.
\<close>

definition wf_grid :: "Connections \<Rightarrow> int \<Rightarrow> int \<Rightarrow> bool" where
  "wf_grid adj Width Height \<longleftrightarrow>
     int (length adj) = Height \<and> list_all (\<lambda>row. int (length row) = Width) adj"

text \<open>The flag of wall \<open>w\<close> of the cell \<open>p\<close> is set (a position outside the vectors has no flag).\<close>

definition wall_open :: "wall \<Rightarrow> Connections \<Rightarrow> Pos \<Rightarrow> bool" where
  "wall_open w adj p = (case adj_at adj (fst p) (snd p) of Inl e \<Rightarrow> False | Inr a \<Rightarrow> flag w a)"

text \<open>
  \<open>q\<close> is one cardinal step from \<open>p\<close> and the flag of the wall between them is set: the
  east or south flag of \<open>p\<close> itself, or the east flag of the western neighbour, or the
  south flag of the northern neighbour.
\<close>

definition open_step :: "Connections \<Rightarrow> Pos \<Rightarrow> Pos \<Rightarrow> bool" where
  "open_step adj p q \<longleftrightarrow>
     q = beyond East p \<and> wall_open East adj p \<or>
     q = beyond South p \<and> wall_open South adj p \<or>
     p = beyond East q \<and> wall_open East adj q \<or>
     p = beyond South q \<and> wall_open South adj q"

text \<open>An edge of the maze graph: an open step between two cells of the grid.\<close>

definition open_wall :: "Connections \<Rightarrow> int \<Rightarrow> int \<Rightarrow> Pos \<Rightarrow> Pos \<Rightarrow> bool" where
  "open_wall adj Width Height p q \<longleftrightarrow>
     in_grid Width Height p \<and> in_grid Width Height q \<and> open_step adj p q"

text \<open>Walks and simple paths of a graph given by its edge relation.\<close>

definition walk :: "('a \<Rightarrow> 'a \<Rightarrow> bool) \<Rightarrow> 'a \<Rightarrow> 'a \<Rightarrow> 'a list \<Rightarrow> bool" where
  "walk E a b ps \<longleftrightarrow> ps \<noteq> [] \<and> hd ps = a \<and> last ps = b \<and> successively E ps"

definition simple_path :: "('a \<Rightarrow> 'a \<Rightarrow> bool) \<Rightarrow> 'a \<Rightarrow> 'a \<Rightarrow> 'a list \<Rightarrow> bool" where
  "simple_path E a b ps \<longleftrightarrow>
     ps \<noteq> [] \<and> hd ps = a \<and> last ps = b \<and> distinct ps \<and> successively E ps"

definition connected :: "('a \<Rightarrow> 'a \<Rightarrow> bool) \<Rightarrow> 'a \<Rightarrow> 'a \<Rightarrow> bool" where
  "connected E a b \<longleftrightarrow> (\<exists>ps. walk E a b ps)"

text \<open>
  The neighbours the loop body of \<^verbatim>\<open>Solve\<close> accepts for the cell \<open>p\<close>, in its order
  (north, east, south, west), and the paths it pushes for them.
\<close>

definition nbrs :: "Connections \<Rightarrow> int \<Rightarrow> int \<Rightarrow> Pos \<Rightarrow> Pos list" where
  "nbrs adj Width Height p =
     (if fst p - 1 \<ge> 0 \<and> wall_open South adj (fst p - 1, snd p) then [(fst p - 1, snd p)] else []) @
     (if snd p + 1 < Width \<and> wall_open East adj p then [(fst p, snd p + 1)] else []) @
     (if fst p + 1 < Height \<and> wall_open South adj p then [(fst p + 1, snd p)] else []) @
     (if snd p - 1 \<ge> 0 \<and> wall_open East adj (fst p, snd p - 1) then [(fst p, snd p - 1)] else [])"

definition pushes :: "Path \<Rightarrow> Pos list \<Rightarrow> Path list" where
  "pushes some_path qs = map (\<lambda>q. some_path @ [q]) (filter (\<lambda>q. q \<notin> set some_path) qs)"

text \<open>Invariants of the fringe, and the measure that shows the search ends.\<close>

definition trail :: "Connections \<Rightarrow> Pos \<Rightarrow> Path \<Rightarrow> bool" where
  "trail adj start p \<longleftrightarrow> p \<noteq> [] \<and> hd p = start \<and> distinct p \<and> successively (open_step adj) p"

definition leads :: "('a \<Rightarrow> 'a \<Rightarrow> bool) \<Rightarrow> 'a \<Rightarrow> 'a list \<Rightarrow> bool" where
  "leads E b p \<longleftrightarrow>
     p \<noteq> [] \<and> (\<exists>rest. distinct (p @ rest) \<and> successively E (p @ rest) \<and> last (p @ rest) = b)"

definition tidy :: "int \<Rightarrow> int \<Rightarrow> Path \<Rightarrow> bool" where
  "tidy Width Height p \<longleftrightarrow> p \<noteq> [] \<and> distinct p \<and> set p \<subseteq> Collect (in_grid Width Height)"

definition weight :: "nat \<Rightarrow> Path list \<Rightarrow> nat" where
  "weight N fringe = sum_list (map (\<lambda>p. 5 ^ (N - length p)) fringe)"

text \<open>
  A graph is a forest when no two distinct simple paths join the same two vertices; this
  is the absence of cycles.  \<open>add_edge\<close> is the graph with one more undirected edge.
\<close>

definition forest :: "('a \<Rightarrow> 'a \<Rightarrow> bool) \<Rightarrow> bool" where
  "forest E \<longleftrightarrow> (\<forall>a b ps qs. simple_path E a b ps \<longrightarrow> simple_path E a b qs \<longrightarrow> ps = qs)"

definition add_edge :: "('a \<Rightarrow> 'a \<Rightarrow> bool) \<Rightarrow> 'a \<Rightarrow> 'a \<Rightarrow> 'a \<Rightarrow> 'a \<Rightarrow> bool" where
  "add_edge E u v a b \<longleftrightarrow> E a b \<or> a = u \<and> b = v \<or> a = v \<and> b = u"

text \<open>
  The representative of an \<^verbatim>\<open>EqClass\<close> object: the object reached by following the
  \<^verbatim>\<open>rep\<close> pointers up to one that points to itself.  A heap is in order when every
  object has a representative, and two objects are in the same class when they have the
  same one; this is what \<^verbatim>\<open>operator==\<close> computes.
\<close>

inductive root :: "('a \<Rightarrow> 'a) \<Rightarrow> 'a \<Rightarrow> 'a \<Rightarrow> bool" for h where
  root_self: "h p = p \<Longrightarrow> root h p p"
| root_step: "h p \<noteq> p \<Longrightarrow> root h (h p) r \<Longrightarrow> root h p r"

definition uf_ok :: "('a \<Rightarrow> 'a) \<Rightarrow> bool" where
  "uf_ok h \<longleftrightarrow> (\<forall>p. \<exists>r. root h p r)"

definition same_class :: "('a \<Rightarrow> 'a) \<Rightarrow> 'a \<Rightarrow> 'a \<Rightarrow> bool" where
  "same_class h p q \<longleftrightarrow> (\<exists>r. root h p r \<and> root h q r)"

definition root_pres :: "('a \<Rightarrow> 'a) \<Rightarrow> ('a \<Rightarrow> 'a) \<Rightarrow> bool" where
  "root_pres h h' \<longleftrightarrow> (\<forall>q s. root h q s \<longrightarrow> root h' q s)"

text \<open>
  The invariant of the loop of \<^verbatim>\<open>Generate\<close>: the grid keeps its dimensions, the heap is
  in order, two cells are in the same class exactly when open walls connect them, the open
  walls form a forest, and a flag is set only for an unmasked cell whose neighbour beyond
  that wall is inside the grid.
\<close>

definition gen_inv :: "int \<Rightarrow> int \<Rightarrow> Mask \<Rightarrow> gen_state \<Rightarrow> bool" where
  "gen_inv Width Height msk st \<longleftrightarrow>
     wf_grid (adj_out st) Width Height \<and>
     uf_ok (pos2ec st) \<and>
     (\<forall>a b. same_class (pos2ec st) a b \<longleftrightarrow> connected (open_wall (adj_out st) Width Height) a b) \<and>
     forest (open_wall (adj_out st) Width Height) \<and>
     (\<forall>w p. wall_open w (adj_out st) p \<longrightarrow> p \<notin> msk \<and> in_grid Width Height (beyond w p))"

text \<open>
  What one iteration does to the grid: either nothing, and then the loop goes on; or it
  sets the flag of one wall \<open>w\<close> of one cell \<open>p\<close>, where \<open>p\<close> and the cell beyond the
  wall are cells of the grid, \<open>p\<close> is unmasked, the flag was not set, and the two cells
  were in different classes when the iteration began; the loop is then left exactly when
  start and finish are in the same class afterwards.
\<close>

fun ctl_state :: "'a ctl \<Rightarrow> 'a" where
  "ctl_state (Continue s) = s"
| "ctl_state (Break s) = s"

fun is_break :: "'a ctl \<Rightarrow> bool" where
  "is_break (Continue s) = False"
| "is_break (Break s) = True"

definition iteration_effect ::
  "int \<Rightarrow> int \<Rightarrow> Mask \<Rightarrow> Pos \<Rightarrow> Pos \<Rightarrow> gen_state \<Rightarrow> gen_state ctl \<Rightarrow> bool"
where
  "iteration_effect Width Height msk start finish st c \<longleftrightarrow>
     adj_out (ctl_state c) = adj_out st \<and> \<not> is_break c \<or>
     (\<exists>w p. in_grid Width Height p \<and> in_grid Width Height (beyond w p) \<and> p \<notin> msk \<and>
        adj_out (ctl_state c) = set_wall w (adj_out st) p \<and>
        \<not> wall_open w (adj_out st) p \<and>
        \<not> same_class (pos2ec st) p (beyond w p) \<and>
        (is_break c \<longleftrightarrow> same_class (pos2ec (ctl_state c)) start finish))"

text \<open>
  A wall is removed between two states only between different classes: every wall whose
  flag is set in the second state and was not set in the first is a wall of a cell of the
  grid, towards a cell of the grid, and the two cells it separates were in different
  union-find classes in the first state.
\<close>

definition removes_between_classes :: "int \<Rightarrow> int \<Rightarrow> gen_state \<Rightarrow> gen_state \<Rightarrow> bool" where
  "removes_between_classes Width Height st st' \<longleftrightarrow>
     (\<forall>w p. wall_open w (adj_out st') p \<and> \<not> wall_open w (adj_out st) p \<longrightarrow>
        in_grid Width Height p \<and> in_grid Width Height (beyond w p) \<and>
        \<not> same_class (pos2ec st) p (beyond w p))"

text \<open>
  The states in which the loop is at its head, counted from a first state: the first
  state itself, and the state after each iteration that did not leave the loop.
\<close>

inductive gen_reach ::
  "(nat \<Rightarrow> nat) \<Rightarrow> int \<Rightarrow> int \<Rightarrow> Pos \<Rightarrow> Pos \<Rightarrow> Mask \<Rightarrow> gen_state \<Rightarrow> gen_state \<Rightarrow> bool"
  for rng Width Height start finish msk st0
where
  reach_first: "gen_reach rng Width Height start finish msk st0 st0"
| reach_next:
    "gen_reach rng Width Height start finish msk st0 st \<Longrightarrow>
     gen_iter rng Width Height start finish msk st = Some (Inr (Continue st')) \<Longrightarrow>
     gen_reach rng Width Height start finish msk st0 (st'\<lparr>total_iterations := total_iterations st' + 1\<rparr>)"

text \<open>The number of flags set in a grid, that is, of walls removed.\<close>

definition walls_removed :: "Connections \<Rightarrow> nat" where
  "walls_removed adj =
     sum_list (map (\<lambda>row. sum_list (map (\<lambda>a. (if to_east a then 1 else 0) + (if to_south a then 1 else 0)) row)) adj)"

text \<open>
  Two neighbouring cells of the grid neither of which is masked; the mask disconnects two
  cells when no walk of such steps joins them.
\<close>

definition free_step :: "int \<Rightarrow> int \<Rightarrow> Mask \<Rightarrow> Pos \<Rightarrow> Pos \<Rightarrow> bool" where
  "free_step Width Height msk p q \<longleftrightarrow>
     in_grid Width Height p \<and> in_grid Width Height q \<and> p \<notin> msk \<and> q \<notin> msk \<and>
     (q = beyond East p \<or> q = beyond South p \<or> p = beyond East q \<or> p = beyond South q)"

text \<open>
  The steps along walls the loop can remove: the mask is tested for the cell whose east or
  south wall is drawn, the western or northern cell of the two.
\<close>

definition removable_step :: "int \<Rightarrow> int \<Rightarrow> Mask \<Rightarrow> Pos \<Rightarrow> Pos \<Rightarrow> bool" where
  "removable_step Width Height msk p q \<longleftrightarrow>
     in_grid Width Height p \<and> in_grid Width Height q \<and>
     ((q = beyond East p \<or> q = beyond South p) \<and> p \<notin> msk \<or>
      (p = beyond East q \<or> p = beyond South q) \<and> q \<notin> msk)"

text \<open>A stream of \<^verbatim>\<open>rand()\<close> values that begins with the given list and goes on with zeros.\<close>

definition rng_of :: "nat list \<Rightarrow> nat \<Rightarrow> nat" where
  "rng_of xs i = (if i < length xs then xs ! i else 0)"

text \<open>
  Grids of two rows and two columns for the examples: all walls up; the east wall of
  (0, 0) open; the path from (0, 0) down and then east; the path east and then down, which
  leaves the cell (1, 0) alone; and a path from (1, 0) to (0, 1) through the cell (1, 1).
\<close>

definition grid_closed :: Connections where
  "grid_closed = [[Adjacency0, Adjacency0], [Adjacency0, Adjacency0]]"

definition grid_east :: Connections where
  "grid_east =
     [[\<lparr>to_east = True, to_south = False\<rparr>, \<lparr>to_east = False, to_south = False\<rparr>],
      [\<lparr>to_east = False, to_south = False\<rparr>, \<lparr>to_east = False, to_south = False\<rparr>]]"

definition grid_bend :: Connections where
  "grid_bend =
     [[\<lparr>to_east = True, to_south = True\<rparr>, \<lparr>to_east = False, to_south = False\<rparr>],
      [\<lparr>to_east = True, to_south = False\<rparr>, \<lparr>to_east = False, to_south = False\<rparr>]]"

definition grid_corner :: Connections where
  "grid_corner =
     [[\<lparr>to_east = True, to_south = False\<rparr>, \<lparr>to_east = False, to_south = True\<rparr>],
      [\<lparr>to_east = False, to_south = False\<rparr>, \<lparr>to_east = False, to_south = False\<rparr>]]"

definition grid_through :: Connections where
  "grid_through =
     [[\<lparr>to_east = False, to_south = False\<rparr>, \<lparr>to_east = False, to_south = True\<rparr>],
      [\<lparr>to_east = True, to_south = False\<rparr>, \<lparr>to_east = False, to_south = False\<rparr>]]"

text \<open>
  The state at the head of the loop after the east wall of (0, 0) has been removed in the
  first iteration: the object of (0, 1) points to that of (0, 0).
\<close>

definition state_east :: gen_state where
  "state_east =
     \<lparr>adj_out = grid_east, pos2ec = (\<lambda>p. p)((0, 1) := (0, 0)), rand_calls = 3,
      total_iterations = 1, productive_iterations = 1\<rparr>"

section \<open>The search of Solve\<close>

subsection \<open>One expansion of a path\<close>

text \<open>
  When the four neighbour tests succeed, the fringe grows by the paths to the accepted
  neighbours that are not yet on the path; on a well-formed grid they always succeed.
\<close>

lemma pushes_append: "pushes sp (qs @ rs) = pushes sp qs @ pushes sp rs"
  by (simp add: pushes_def)

lemma try_north_Inr:
  assumes "try_north adj some_path fringe = Inr fringe'"
  shows "fringe' = fringe @ pushes some_path
     (if fst (last some_path) - 1 \<ge> 0 \<and> wall_open South adj (fst (last some_path) - 1, snd (last some_path))
      then [(fst (last some_path) - 1, snd (last some_path))] else [])"
  using assms unfolding try_north_def pushes_def step_def wall_open_def Let_def
  by (auto split: sum.splits if_splits)

lemma try_east_Inr:
  assumes "try_east adj Width some_path fringe = Inr fringe'"
  shows "fringe' = fringe @ pushes some_path
     (if snd (last some_path) + 1 < Width \<and> wall_open East adj (last some_path)
      then [(fst (last some_path), snd (last some_path) + 1)] else [])"
  using assms unfolding try_east_def pushes_def step_def wall_open_def Let_def
  by (auto split: sum.splits if_splits)

lemma try_south_Inr:
  assumes "try_south adj Height some_path fringe = Inr fringe'"
  shows "fringe' = fringe @ pushes some_path
     (if fst (last some_path) + 1 < Height \<and> wall_open South adj (last some_path)
      then [(fst (last some_path) + 1, snd (last some_path))] else [])"
  using assms unfolding try_south_def pushes_def step_def wall_open_def Let_def
  by (auto split: sum.splits if_splits)

lemma try_west_Inr:
  assumes "try_west adj some_path fringe = Inr fringe'"
  shows "fringe' = fringe @ pushes some_path
     (if snd (last some_path) - 1 \<ge> 0 \<and> wall_open East adj (fst (last some_path), snd (last some_path) - 1)
      then [(fst (last some_path), snd (last some_path) - 1)] else [])"
  using assms unfolding try_west_def pushes_def step_def wall_open_def Let_def
  by (auto split: sum.splits if_splits)

lemma expand_Inr:
  assumes "expand adj Width Height some_path fringe = Inr fringe'"
  shows "fringe' = fringe @ pushes some_path (nbrs adj Width Height (last some_path))"
proof -
  from assms obtain f1 f2 f3 where
    n: "try_north adj some_path fringe = Inr f1" and
    e: "try_east adj Width some_path f1 = Inr f2" and
    s: "try_south adj Height some_path f2 = Inr f3" and
    w: "try_west adj some_path f3 = Inr fringe'"
    unfolding expand_def by (auto split: sum.splits)
  show ?thesis
    unfolding try_west_Inr [OF w] try_south_Inr [OF s] try_east_Inr [OF e] try_north_Inr [OF n]
      nbrs_def pushes_append by simp
qed

lemma adj_at_wf:
  assumes "wf_grid adj Width Height" "in_grid Width Height (y, x)"
  shows "\<exists>a. adj_at adj y x = Inr a"
proof -
  from assms have y: "0 \<le> y" "nat y < length adj" and x: "0 \<le> x" "x < Width"
    unfolding wf_grid_def in_grid_def by auto
  from assms y have "int (length (adj ! nat y)) = Width"
    unfolding wf_grid_def list_all_length by blast
  with x y show ?thesis unfolding adj_at_def by auto
qed

lemma adj_at_in_grid:
  assumes "wf_grid adj Width Height" "adj_at adj y x = Inr a"
  shows "in_grid Width Height (y, x)"
proof -
  from assms(2) have y: "0 \<le> y" "nat y < length adj" and x: "0 \<le> x" "nat x < length (adj ! nat y)"
    unfolding adj_at_def by (auto split: if_splits)
  from assms(1) y have "int (length (adj ! nat y)) = Width"
    unfolding wf_grid_def list_all_length by blast
  with x y assms(1) show ?thesis unfolding in_grid_def wf_grid_def by auto
qed

lemma wall_open_in_grid:
  "wf_grid adj Width Height \<Longrightarrow> wall_open w adj p \<Longrightarrow> in_grid Width Height p"
  unfolding wall_open_def using adj_at_in_grid [of adj Width Height "fst p" "snd p"]
  by (auto split: sum.splits)

lemma expand_total:
  assumes wf: "wf_grid adj Width Height" and p: "in_grid Width Height (last some_path)"
  shows "\<exists>fringe'. expand adj Width Height some_path fringe = Inr fringe'"
proof -
  obtain y x where yx: "last some_path = (y, x)" by (cases "last some_path")
  have here: "\<exists>a. adj_at adj y x = Inr a"
    using adj_at_wf [OF wf] p yx by simp
  have north: "0 \<le> y - 1 \<Longrightarrow> \<exists>a. adj_at adj (y - 1) x = Inr a"
    using adj_at_wf [OF wf, of "y - 1" x] p yx by (simp add: in_grid_def)
  have west: "0 \<le> x - 1 \<Longrightarrow> \<exists>a. adj_at adj y (x - 1) = Inr a"
    using adj_at_wf [OF wf, of y "x - 1"] p yx by (simp add: in_grid_def)
  have n: "\<exists>f1. try_north adj some_path fringe = Inr f1"
    using north by (auto simp: try_north_def yx Let_def)
  then obtain f1 where f1: "try_north adj some_path fringe = Inr f1" ..
  have "\<exists>f2. try_east adj Width some_path f1 = Inr f2"
    using here by (auto simp: try_east_def yx Let_def)
  then obtain f2 where f2: "try_east adj Width some_path f1 = Inr f2" ..
  have "\<exists>f3. try_south adj Height some_path f2 = Inr f3"
    using here by (auto simp: try_south_def yx Let_def)
  then obtain f3 where f3: "try_south adj Height some_path f2 = Inr f3" ..
  have "\<exists>f4. try_west adj some_path f3 = Inr f4"
    using west by (auto simp: try_west_def yx Let_def)
  with f1 f2 f3 show ?thesis by (simp add: expand_def)
qed

lemma nbrs_open_step: "q \<in> set (nbrs adj Width Height p) \<Longrightarrow> open_step adj p q"
  unfolding nbrs_def open_step_def by (cases p; cases q) (auto split: if_splits)

lemma nbrs_in_grid:
  assumes "wf_grid adj Width Height" "in_grid Width Height p" "q \<in> set (nbrs adj Width Height p)"
  shows "in_grid Width Height q"
  using assms(2,3) wall_open_in_grid [OF assms(1)]
  unfolding nbrs_def by (cases p; cases q) (auto split: if_splits simp: in_grid_def)

lemma open_wall_nbrs:
  assumes "open_wall adj Width Height p q"
  shows "q \<in> set (nbrs adj Width Height p)"
  using assms unfolding open_wall_def open_step_def nbrs_def in_grid_def
  by (cases p; cases q) auto

lemma nbrs_iff_open_wall:
  assumes "wf_grid adj Width Height" "in_grid Width Height p"
  shows "q \<in> set (nbrs adj Width Height p) \<longleftrightarrow> open_wall adj Width Height p q"
  using assms nbrs_in_grid nbrs_open_step open_wall_nbrs unfolding open_wall_def by blast

lemma length_nbrs: "length (nbrs adj Width Height p) \<le> 4"
  unfolding nbrs_def by simp

lemma length_pushes: "length (pushes some_path (nbrs adj Width Height p)) \<le> 4"
  unfolding pushes_def
  using le_trans [OF length_filter_le length_nbrs, of "\<lambda>q. q \<notin> set some_path" adj Width Height p]
  by simp

subsection \<open>What a returning run of the loop guarantees\<close>

lemma solve_loop_False_frame:
  assumes "solve_loop adj Width Height fx fy path_out fringe = Some r"
  shows "\<forall>path. r = Inr (False, path) \<longrightarrow> path = path_out"
  by (rule solve_loop.raw_induct [OF _ assms])
     (auto simp: Let_def split: if_splits sum.splits)

lemma trail_snoc:
  assumes "trail adj start p" "q \<notin> set p" "open_step adj (last p) q"
  shows "trail adj start (p @ [q])"
  using assms unfolding trail_def by (auto simp: successively_append_iff)

lemma pushes_trail:
  assumes "trail adj start sp" "p \<in> set (pushes sp (nbrs adj Width Height (last sp)))"
  shows "trail adj start p"
proof -
  from assms(2) obtain q where "p = sp @ [q]" "q \<notin> set sp" "q \<in> set (nbrs adj Width Height (last sp))"
    unfolding pushes_def by auto
  with trail_snoc [OF assms(1)] nbrs_open_step show ?thesis by blast
qed

lemma solve_loop_True_trail:
  assumes "solve_loop adj Width Height fx fy path_out fringe = Some r"
  shows "(\<forall>p \<in> set fringe. trail adj start p) \<longrightarrow>
         (\<forall>path. r = Inr (True, path) \<longrightarrow> trail adj start path \<and> last path = (fy, fx))"
proof (rule solve_loop.raw_induct [OF _ assms], goal_cases)
  case (1 f adj Width Height fx fy path_out fringe r)
  show ?case
  proof (intro impI allI)
    fix path
    assume inv: "\<forall>p \<in> set fringe. trail adj start p" and r: "r = Inr (True, path)"
    show "trail adj start path \<and> last path = (fy, fx)"
    proof (cases "fringe = []")
      case True
      with 1(2) r show ?thesis by simp
    next
      case ne: False
      let ?sp = "last fringe"
      from ne inv have sp: "trail adj start ?sp" and rest: "\<forall>p \<in> set (butlast fringe). trail adj start p"
        by (auto dest: in_set_butlastD)
      then have spne: "?sp \<noteq> []" by (simp add: trail_def)
      show ?thesis
      proof (cases "fst (last ?sp) = fy \<and> snd (last ?sp) = fx")
        case True
        with 1(2) ne spne r have "path = ?sp" by (simp add: Let_def)
        with sp True show ?thesis by (simp add: prod_eq_iff)
      next
        case False
        with 1(2) ne spne r obtain fringe2 where
          ex: "expand adj Width Height ?sp (butlast fringe) = Inr fringe2"
          and rec: "f adj Width Height fx fy path_out fringe2 = Some r"
          by (auto simp: Let_def split: sum.splits)
        have "\<forall>p \<in> set fringe2. trail adj start p"
          using expand_Inr [OF ex] rest pushes_trail [OF sp] by auto
        with 1(1) [OF rec] r show ?thesis by blast
      qed
    qed
  qed
qed

lemma solve_loop_True_inv:
  assumes "solve_loop adj Width Height fx fy path_out fringe = Some r"
  shows "(\<forall>sp q. Q sp \<longrightarrow> sp \<noteq> [] \<longrightarrow> q \<in> set (nbrs adj Width Height (last sp)) \<longrightarrow> q \<notin> set sp
            \<longrightarrow> Q (sp @ [q])) \<longrightarrow>
         (\<forall>p \<in> set fringe. Q p) \<longrightarrow>
         (\<forall>path. r = Inr (True, path) \<longrightarrow> Q path \<and> path \<noteq> [] \<and> last path = (fy, fx))"
proof (rule solve_loop.raw_induct [OF _ assms], goal_cases)
  case (1 f adj Width Height fx fy path_out fringe r)
  show ?case
  proof (intro impI allI)
    fix path
    assume closed: "\<forall>sp q. Q sp \<longrightarrow> sp \<noteq> [] \<longrightarrow> q \<in> set (nbrs adj Width Height (last sp)) \<longrightarrow> q \<notin> set sp
            \<longrightarrow> Q (sp @ [q])"
      and inv: "\<forall>p \<in> set fringe. Q p" and r: "r = Inr (True, path)"
    show "Q path \<and> path \<noteq> [] \<and> last path = (fy, fx)"
    proof (cases "fringe = []")
      case True
      with 1(2) r show ?thesis by simp
    next
      case ne: False
      let ?sp = "last fringe"
      from ne inv have sp: "Q ?sp" and rest: "\<forall>p \<in> set (butlast fringe). Q p"
        by (auto dest: in_set_butlastD)
      from 1(2) ne r have spne: "?sp \<noteq> []" by (auto simp: Let_def split: if_splits)
      show ?thesis
      proof (cases "fst (last ?sp) = fy \<and> snd (last ?sp) = fx")
        case True
        with 1(2) ne spne r have "path = ?sp" by (simp add: Let_def)
        with sp spne True show ?thesis by (simp add: prod_eq_iff)
      next
        case False
        with 1(2) ne spne r obtain fringe2 where
          ex: "expand adj Width Height ?sp (butlast fringe) = Inr fringe2"
          and rec: "f adj Width Height fx fy path_out fringe2 = Some r"
          by (auto simp: Let_def split: sum.splits)
        have "\<forall>p \<in> set (pushes ?sp (nbrs adj Width Height (last ?sp))). Q p"
          using closed sp spne unfolding pushes_def by auto
        then have "\<forall>p \<in> set fringe2. Q p"
          using expand_Inr [OF ex] rest by auto
        with 1(1) [OF rec] closed r show ?thesis by blast
      qed
    qed
  qed
qed

lemma leads_extend:
  assumes "leads E b p" "last p \<noteq> b"
  shows "\<exists>q. E (last p) q \<and> q \<notin> set p \<and> leads E b (p @ [q])"
proof -
  from assms obtain rest where p: "p \<noteq> []" and d: "distinct (p @ rest)"
    and s: "successively E (p @ rest)" and l: "last (p @ rest) = b"
    unfolding leads_def by blast
  from l assms(2) p have "rest \<noteq> []" by auto
  then obtain q rest' where rest: "rest = q # rest'" by (cases rest) auto
  from s p have "E (last p) q" by (simp add: rest successively_append_iff)
  moreover from d have "q \<notin> set p" by (auto simp: rest)
  moreover have "leads E b (p @ [q])"
    unfolding leads_def using d s l by (auto simp: rest intro!: exI [of _ rest'])
  ultimately show ?thesis by blast
qed

lemma solve_loop_False_exhausted:
  assumes "solve_loop adj Width Height fx fy path_out fringe = Some r"
  shows "(\<exists>path. r = Inr (False, path)) \<longrightarrow>
         \<not> (\<exists>p \<in> set fringe. leads (open_wall adj Width Height) (fy, fx) p)"
proof (rule solve_loop.raw_induct [OF _ assms], goal_cases)
  case (1 f adj Width Height fx fy path_out fringe r)
  show ?case
  proof (intro impI notI)
    assume r: "\<exists>path. r = Inr (False, path)"
      and "\<exists>p \<in> set fringe. leads (open_wall adj Width Height) (fy, fx) p"
    then obtain p where p: "p \<in> set fringe" "leads (open_wall adj Width Height) (fy, fx) p"
      by blast
    then have ne: "fringe \<noteq> []" by auto
    let ?sp = "last fringe"
    from 1(2) ne r have spne: "?sp \<noteq> []" by (auto simp: Let_def split: if_splits)
    from 1(2) ne r spne have nf: "last ?sp \<noteq> (fy, fx)"
      by (auto simp: Let_def prod_eq_iff split: if_splits)
    with 1(2) ne spne r obtain fringe2 where
      ex: "expand adj Width Height ?sp (butlast fringe) = Inr fringe2"
      and rec: "f adj Width Height fx fy path_out fringe2 = Some r"
      by (auto simp: Let_def prod_eq_iff split: sum.splits if_splits)
    note f2 = expand_Inr [OF ex]
    have "\<exists>p' \<in> set fringe2. leads (open_wall adj Width Height) (fy, fx) p'"
    proof (cases "p = ?sp")
      case True
      from leads_extend [OF p(2) [unfolded True] nf] obtain q where
        q: "open_wall adj Width Height (last ?sp) q" "q \<notin> set ?sp"
           "leads (open_wall adj Width Height) (fy, fx) (?sp @ [q])" by blast
      from q(1) have "q \<in> set (nbrs adj Width Height (last ?sp))" by (rule open_wall_nbrs)
      with q(2) have "?sp @ [q] \<in> set fringe2" unfolding f2 pushes_def by auto
      with q(3) show ?thesis by blast
    next
      case False
      with p(1) ne have "p \<in> set (butlast fringe)"
        by (metis append_butlast_last_id in_set_conv_decomp_last rotate1.simps(2) set_ConsD set_rotate1)
      with p(2) show ?thesis unfolding f2 by auto
    qed
    with 1(1) [OF rec] r show False by blast
  qed
qed

subsection \<open>The loop returns on a well-formed grid\<close>

text \<open>
  Every path on the fringe is duplicate free and inside the grid, so no longer than the
  grid has cells; each iteration replaces one path by at most four longer ones, which
  lowers the weight of the fringe.
\<close>

lemma finite_in_grid: "finite (Collect (in_grid Width Height))"
proof -
  have "Collect (in_grid Width Height) \<subseteq> {0..<Height} \<times> {0..<Width}"
    by (auto simp: in_grid_def)
  then show ?thesis by (rule finite_subset) simp
qed

lemma tidy_length:
  assumes "tidy Width Height p"
  shows "length p \<le> card (Collect (in_grid Width Height))"
proof -
  from assms have "length p = card (set p)" by (simp add: tidy_def distinct_card)
  also from assms have "\<dots> \<le> card (Collect (in_grid Width Height))"
    by (intro card_mono finite_in_grid) (simp add: tidy_def)
  finally show ?thesis .
qed

lemma tidy_last:
  assumes "tidy Width Height p"
  shows "in_grid Width Height (last p)"
proof -
  from assms have "last p \<in> set p" by (simp add: tidy_def)
  with assms show ?thesis unfolding tidy_def by blast
qed

lemma pushes_tidy:
  assumes wf: "wf_grid adj Width Height" and sp: "tidy Width Height sp"
    and p: "p \<in> set (pushes sp (nbrs adj Width Height (last sp)))"
  shows "tidy Width Height p \<and> length p = Suc (length sp)"
proof -
  from p obtain q where q: "p = sp @ [q]" "q \<notin> set sp" "q \<in> set (nbrs adj Width Height (last sp))"
    unfolding pushes_def by auto
  from sp have "in_grid Width Height (last sp)" by (rule tidy_last)
  from nbrs_in_grid [OF wf this q(3)] sp q(1,2) show ?thesis
    unfolding tidy_def by auto
qed

lemma weight_append: "weight N (xs @ ys) = weight N xs + weight N ys"
  by (simp add: weight_def)

lemma weight_same_length:
  assumes "\<forall>p \<in> set ps. length p = n"
  shows "weight N ps = length ps * 5 ^ (N - n)"
  using assms by (induction ps) (auto simp: weight_def)

lemma weight_pushes_less:
  assumes wf: "wf_grid adj Width Height" and sp: "tidy Width Height sp"
  shows "weight (card (Collect (in_grid Width Height))) (pushes sp (nbrs adj Width Height (last sp)))
         < 5 ^ (card (Collect (in_grid Width Height)) - length sp)"
proof -
  let ?N = "card (Collect (in_grid Width Height))"
  let ?ps = "pushes sp (nbrs adj Width Height (last sp))"
  have w: "weight ?N ?ps = length ?ps * 5 ^ (?N - Suc (length sp))"
    using pushes_tidy [OF wf sp] by (intro weight_same_length) blast
  show ?thesis
  proof (cases "?ps = []")
    case True
    then show ?thesis by (simp add: weight_def)
  next
    case False
    then obtain p where "p \<in> set ?ps" by (cases ?ps) auto
    from pushes_tidy [OF wf sp this] tidy_length [of Width Height p]
    have "Suc (length sp) \<le> ?N" by simp
    then have e: "?N - length sp = Suc (?N - Suc (length sp))" by simp
    have "length ?ps * 5 ^ (?N - Suc (length sp)) \<le> 4 * 5 ^ (?N - Suc (length sp))"
      using length_pushes [of sp adj Width Height "last sp"] by simp
    also have "\<dots> < 5 ^ (?N - length sp)" unfolding e by simp
    finally show ?thesis unfolding w .
  qed
qed

lemma solve_loop_returns:
  assumes wf: "wf_grid adj Width Height" and tidy: "\<forall>p \<in> set fringe. tidy Width Height p"
  shows "\<exists>b path. solve_loop adj Width Height fx fy path_out fringe = Some (Inr (b, path))"
  using tidy
proof (induction "weight (card (Collect (in_grid Width Height))) fringe"
    arbitrary: fringe rule: less_induct)
  case less
  let ?N = "card (Collect (in_grid Width Height))"
  show ?case
  proof (cases "fringe = []")
    case True
    then show ?thesis by (subst solve_loop.simps) auto
  next
    case ne: False
    let ?sp = "last fringe"
    from ne have fr: "fringe = butlast fringe @ [?sp]" by simp
    from ne less.prems have sp: "tidy Width Height ?sp"
      and rest: "\<forall>p \<in> set (butlast fringe). tidy Width Height p"
      by (auto dest: in_set_butlastD)
    then have spne: "?sp \<noteq> []" and ing: "in_grid Width Height (last ?sp)"
      using tidy_last [of Width Height ?sp] by (auto simp: tidy_def)
    show ?thesis
    proof (cases "fst (last ?sp) = fy \<and> snd (last ?sp) = fx")
      case True
      with ne spne show ?thesis by (subst solve_loop.simps) (auto simp: Let_def)
    next
      case False
      from expand_total [OF wf ing] obtain fringe2 where
        ex: "expand adj Width Height ?sp (butlast fringe) = Inr fringe2" by blast
      note f2 = expand_Inr [OF ex]
      have t2: "\<forall>p \<in> set fringe2. tidy Width Height p"
        unfolding f2 using rest pushes_tidy [OF wf sp] by auto
      have "weight ?N fringe2 = weight ?N (butlast fringe)
              + weight ?N (pushes ?sp (nbrs adj Width Height (last ?sp)))"
        unfolding f2 by (rule weight_append)
      also have "\<dots> < weight ?N (butlast fringe) + 5 ^ (?N - length ?sp)"
        using weight_pushes_less [OF wf sp] by simp
      also have "\<dots> = weight ?N (butlast fringe @ [?sp])"
        by (simp add: weight_def)
      finally have "weight ?N fringe2 < weight ?N fringe" using fr by simp
      from less.hyps [OF this t2] obtain b path where
        "solve_loop adj Width Height fx fy path_out fringe2 = Some (Inr (b, path))" by blast
      with ne spne False ex show ?thesis
        by (subst solve_loop.simps) (auto simp: Let_def)
    qed
  qed
qed

subsection \<open>Walks, simple paths and connectedness\<close>

lemma successively_rtranclp:
  assumes "successively E ps" "ps \<noteq> []"
  shows "E\<^sup>*\<^sup>* (hd ps) (last ps)"
  using assms
proof (induction ps rule: induct_list012)
  case (3 x y zs)
  then have "E x y" "E\<^sup>*\<^sup>* y (last (y # zs))" by auto
  then show ?case by (simp del: last.simps add: last_ConsR converse_rtranclp_into_rtranclp)
qed auto

lemma rtranclp_simple_path:
  assumes "E\<^sup>*\<^sup>* a b"
  shows "\<exists>ps. simple_path E a b ps"
  using assms
proof (induction rule: converse_rtranclp_induct)
  case base
  show ?case by (rule exI [of _ "[b]"]) (simp add: simple_path_def)
next
  case (step a c)
  then obtain ps where ps: "ps \<noteq> []" "hd ps = c" "last ps = b" "distinct ps" "successively E ps"
    unfolding simple_path_def by blast
  show ?case
  proof (cases "a \<in> set ps")
    case False
    with ps step(1) have "simple_path E a b (a # ps)"
      unfolding simple_path_def by (auto simp: successively_Cons)
    then show ?thesis ..
  next
    case True
    then obtain us vs where uv: "ps = us @ a # vs" by (auto simp: in_set_conv_decomp)
    with ps have "simple_path E a b (a # vs)"
      unfolding simple_path_def by (auto simp: successively_append_iff)
    then show ?thesis ..
  qed
qed

lemma connected_iff_rtranclp: "connected E a b \<longleftrightarrow> E\<^sup>*\<^sup>* a b"
proof
  assume "connected E a b"
  then obtain ps where "walk E a b ps" unfolding connected_def ..
  then show "E\<^sup>*\<^sup>* a b"
    unfolding walk_def using successively_rtranclp [of E ps] by auto
next
  assume "E\<^sup>*\<^sup>* a b"
  from rtranclp_simple_path [OF this] show "connected E a b"
    unfolding connected_def simple_path_def walk_def by blast
qed

lemma connected_simple_path: "connected E a b \<longleftrightarrow> (\<exists>ps. simple_path E a b ps)"
  using rtranclp_simple_path [of E a b] connected_iff_rtranclp [of E a b]
  unfolding connected_def simple_path_def walk_def by blast

subsection \<open>Solve decides connectedness\<close>

lemma Solve_returns:
  assumes "wf_grid adj Width Height" "in_grid Width Height (sy, sx)"
  shows "\<exists>b path. Solve adj Width Height sx sy fx fy path_out = Some (Inr (b, path))"
  unfolding Solve_def using assms(2)
  by (intro solve_loop_returns [OF assms(1)]) (simp add: tidy_def)

lemma Solve_True_trail:
  assumes "Solve adj Width Height sx sy fx fy path_out = Some (Inr (True, path))"
  shows "trail adj (sy, sx) path \<and> last path = (fy, fx)"
  using solve_loop_True_trail [OF assms [unfolded Solve_def], of "(sy, sx)"]
  by (simp add: trail_def)

lemma Solve_True_walk:
  assumes wf: "wf_grid adj Width Height" and start: "in_grid Width Height (sy, sx)"
    and res: "Solve adj Width Height sx sy fx fy path_out = Some (Inr (True, path))"
  shows "simple_path (open_wall adj Width Height) (sy, sx) (fy, fx) path"
proof -
  let ?E = "open_wall adj Width Height"
  let ?Q = "\<lambda>p. p \<noteq> [] \<and> hd p = (sy, sx) \<and> distinct p \<and> successively ?E p
                   \<and> in_grid Width Height (last p)"
  have closed: "\<forall>sp q. ?Q sp \<longrightarrow> sp \<noteq> [] \<longrightarrow> q \<in> set (nbrs adj Width Height (last sp))
                  \<longrightarrow> q \<notin> set sp \<longrightarrow> ?Q (sp @ [q])"
  proof (intro allI impI)
    fix sp q
    assume sp: "?Q sp" and q: "q \<in> set (nbrs adj Width Height (last sp))" "q \<notin> set sp"
    from sp q(1) have "?E (last sp) q" using nbrs_iff_open_wall [OF wf] by blast
    moreover then have "in_grid Width Height q" by (simp add: open_wall_def)
    ultimately show "?Q (sp @ [q])" using sp q(2) by (auto simp: successively_append_iff)
  qed
  have base: "\<forall>p \<in> set [[(sy, sx)]]. ?Q p" using start by simp
  from solve_loop_True_inv [OF res [unfolded Solve_def], of ?Q] closed base
  have "?Q path \<and> path \<noteq> [] \<and> last path = (fy, fx)" by blast
  then show ?thesis by (simp add: simple_path_def)
qed

lemma Solve_False_disconnected:
  assumes "Solve adj Width Height sx sy fx fy path_out = Some (Inr (False, path))"
  shows "\<not> connected (open_wall adj Width Height) (sy, sx) (fy, fx)"
proof
  assume "connected (open_wall adj Width Height) (sy, sx) (fy, fx)"
  then obtain ps where ps: "simple_path (open_wall adj Width Height) (sy, sx) (fy, fx) ps"
    unfolding connected_simple_path ..
  then obtain rest where "ps = (sy, sx) # rest" unfolding simple_path_def by (cases ps) auto
  with ps have "leads (open_wall adj Width Height) (fy, fx) [(sy, sx)]"
    unfolding leads_def simple_path_def by (intro conjI exI [of _ rest]) auto
  with solve_loop_False_exhausted [OF assms [unfolded Solve_def]] show False by simp
qed

lemma Solve_decides:
  assumes wf: "wf_grid adj Width Height" and start: "in_grid Width Height (sy, sx)"
  shows "\<exists>b path. Solve adj Width Height sx sy fx fy path_out = Some (Inr (b, path)) \<and>
           (b \<longleftrightarrow> connected (open_wall adj Width Height) (sy, sx) (fy, fx))"
proof -
  from Solve_returns [OF assms] obtain b path where
    r: "Solve adj Width Height sx sy fx fy path_out = Some (Inr (b, path))" by blast
  have "b \<longleftrightarrow> connected (open_wall adj Width Height) (sy, sx) (fy, fx)"
  proof (cases b)
    case True
    with r have "Solve adj Width Height sx sy fx fy path_out = Some (Inr (True, path))" by simp
    from Solve_True_walk [OF wf start this]
    have "connected (open_wall adj Width Height) (sy, sx) (fy, fx)"
      unfolding connected_simple_path by blast
    with True show ?thesis by simp
  next
    case False
    with r have "Solve adj Width Height sx sy fx fy path_out = Some (Inr (False, path))" by simp
    from Solve_False_disconnected [OF this] False show ?thesis by simp
  qed
  with r show ?thesis by blast
qed

lemma no_open_walls_disconnected:
  assumes "\<forall>p. \<not> wall_open East adj p \<and> \<not> wall_open South adj p" "a \<noteq> b"
  shows "\<not> connected (open_wall adj Width Height) a b"
proof -
  from assms(1) have no: "\<And>p q. \<not> open_wall adj Width Height p q"
    unfolding open_wall_def open_step_def by blast
  have "a = b" if "(open_wall adj Width Height)\<^sup>*\<^sup>* a b"
    using that no by (induction rule: rtranclp_induct) auto
  with assms(2) show ?thesis unfolding connected_iff_rtranclp by blast
qed

lemma grid_closed_no_walls: "\<not> wall_open w grid_closed p"
  unfolding wall_open_def adj_at_def grid_closed_def
  by (cases w) (auto simp: Adjacency0_def nth_Cons' less_2_cases_iff)

section \<open>Graphs, the union-find heap and the invariant of Generate\<close>

subsection \<open>Adding an edge between two components\<close>

lemma connected_refl: "connected E a a"
  by (simp add: connected_iff_rtranclp)

lemma connected_trans: "connected E a b \<Longrightarrow> connected E b c \<Longrightarrow> connected E a c"
  by (simp add: connected_iff_rtranclp)

lemma connected_sym:
  assumes "symp E" "connected E a b"
  shows "connected E b a"
proof -
  from assms(2) have "E\<^sup>*\<^sup>* a b" by (simp add: connected_iff_rtranclp)
  then have "E\<^sup>*\<^sup>* b a"
  proof (induction rule: rtranclp_induct)
    case base
    show ?case by simp
  next
    case (step y z)
    from step(2) assms(1) have "E z y" by (auto dest: sympD)
    with step(3) show ?case by (simp add: converse_rtranclp_into_rtranclp)
  qed
  then show ?thesis by (simp add: connected_iff_rtranclp)
qed

lemma connected_edge: "E a b \<Longrightarrow> connected E a b"
  by (simp add: connected_iff_rtranclp)

lemma connected_mono:
  assumes "connected E a b" "\<And>x y. E x y \<Longrightarrow> E' x y"
  shows "connected E' a b"
proof -
  from assms(1) have "E\<^sup>*\<^sup>* a b" by (simp add: connected_iff_rtranclp)
  then have "E'\<^sup>*\<^sup>* a b"
    by (induction rule: rtranclp_induct) (auto intro: assms(2) rtranclp.rtrancl_into_rtrancl)
  then show ?thesis by (simp add: connected_iff_rtranclp)
qed

lemma simple_path_connected: "simple_path E a b ps \<Longrightarrow> connected E a b"
  unfolding connected_simple_path by blast

lemma successively_connected:
  "successively E ps \<Longrightarrow> ps \<noteq> [] \<Longrightarrow> connected E (hd ps) (last ps)"
  unfolding connected_def walk_def by blast

lemma connected_add_edge:
  assumes sym: "symp E"
  shows "connected (add_edge E u v) a b \<longleftrightarrow>
           connected E a b \<or> connected E a u \<and> connected E v b \<or> connected E a v \<and> connected E u b"
    (is "?L \<longleftrightarrow> ?R")
proof
  assume ?L
  then have "(add_edge E u v)\<^sup>*\<^sup>* a b" by (simp add: connected_iff_rtranclp)
  then show ?R
  proof (induction rule: rtranclp_induct)
    case base
    show ?case by (simp add: connected_refl)
  next
    case (step y z)
    from step(2) consider "E y z" | "y = u" "z = v" | "y = v" "z = u"
      unfolding add_edge_def by blast
    then show ?case
    proof cases
      case 1
      then have yz: "connected E y z" by (rule connected_edge)
      from step(3) yz show ?thesis by (meson connected_trans)
    next
      case 2
      with step(3) show ?thesis
        by (meson connected_refl connected_trans connected_sym [OF sym])
    next
      case 3
      with step(3) show ?thesis
        by (meson connected_refl connected_trans connected_sym [OF sym])
    qed
  qed
next
  let ?E' = "add_edge E u v"
  have sub: "\<And>x y. connected E x y \<Longrightarrow> connected ?E' x y"
    by (erule connected_mono) (simp add: add_edge_def)
  have uv: "connected ?E' u v" "connected ?E' v u"
    by (rule connected_edge, simp add: add_edge_def)+
  assume ?R
  then show ?L using sub uv by (meson connected_trans)
qed

lemma split_at_new_edge:
  assumes "successively (add_edge E u v) ps" "distinct ps" "\<not> successively E ps"
  shows "\<exists>ps1 ps2. ps = ps1 @ ps2 \<and> ps1 \<noteq> [] \<and> ps2 \<noteq> [] \<and>
           (last ps1 = u \<and> hd ps2 = v \<or> last ps1 = v \<and> hd ps2 = u) \<and>
           successively E ps1 \<and> successively E ps2"
  using assms
proof (induction ps rule: induct_list012)
  case 1
  then show ?case by simp
next
  case (2 x)
  then show ?case by simp
next
  case (3 x y zs)
  from "3.prems" have xy: "add_edge E u v x y" and tl: "successively (add_edge E u v) (y # zs)"
    and d: "distinct (y # zs)" and x: "x \<notin> set (y # zs)" by auto
  show ?case
  proof (cases "successively E (y # zs)")
    case True
    with "3.prems"(3) have "\<not> E x y" by auto
    with xy have "x = u \<and> y = v \<or> x = v \<and> y = u" by (simp add: add_edge_def)
    with True show ?thesis
      by (intro exI [of _ "[x]"] exI [of _ "y # zs"]) auto
  next
    case False
    from "3.IH"(2) [OF tl d False] obtain ps1 ps2 where
      s: "y # zs = ps1 @ ps2" "ps1 \<noteq> []" "ps2 \<noteq> []"
         "last ps1 = u \<and> hd ps2 = v \<or> last ps1 = v \<and> hd ps2 = u"
         "successively E ps1" "successively E ps2" by blast
    from s(1-3) have "last ps1 \<in> set (y # zs)" "hd ps2 \<in> set (y # zs)"
      by (metis Un_iff last_in_set set_append, metis Un_iff hd_in_set set_append)
    with s(4) x have "x \<noteq> u" "x \<noteq> v" by auto
    with xy have "E x y" by (simp add: add_edge_def)
    moreover from s(1,2) have "hd ps1 = y" by (cases ps1) auto
    ultimately have "successively E (x # ps1)" using s(2,5) by (simp add: successively_Cons)
    with s show ?thesis
      by (intro exI [of _ "x # ps1"] exI [of _ ps2]) auto
  qed
qed

lemma simple_path_appendD:
  assumes "simple_path E a b (ps1 @ ps2)" "ps1 \<noteq> []" "ps2 \<noteq> []"
  shows "simple_path E a (last ps1) ps1" "simple_path E (hd ps2) b ps2"
  using assms unfolding simple_path_def by (auto simp: successively_append_iff)

lemma simple_path_mono:
  assumes "simple_path E a b ps" "successively E' ps"
  shows "simple_path E' a b ps"
  using assms unfolding simple_path_def by simp

lemma forest_add_edge:
  assumes sym: "symp E" and f: "forest E" and nc: "\<not> connected E u v"
  shows "forest (add_edge E u v)"
  unfolding forest_def
proof (intro allI impI)
  fix a b ps qs
  let ?E' = "add_edge E u v"
  assume ps: "simple_path ?E' a b ps" and qs: "simple_path ?E' a b qs"
  have nc': "\<not> connected E v u" using nc connected_sym [OF sym] by blast
  have old: "\<And>xs ys c d. simple_path E c d xs \<Longrightarrow> simple_path E c d ys \<Longrightarrow> xs = ys"
    using f unfolding forest_def by blast
  have split: "\<exists>x y xs1 xs2. xs = xs1 @ xs2 \<and> (x = u \<and> y = v \<or> x = v \<and> y = u) \<and>
                 simple_path E a x xs1 \<and> simple_path E y b xs2"
    if xs: "simple_path ?E' a b xs" and n: "\<not> successively E xs" for xs
  proof -
    from xs have "successively ?E' xs" "distinct xs" unfolding simple_path_def by auto
    from split_at_new_edge [OF this n] obtain xs1 xs2 where
      s: "xs = xs1 @ xs2" "xs1 \<noteq> []" "xs2 \<noteq> []"
         "last xs1 = u \<and> hd xs2 = v \<or> last xs1 = v \<and> hd xs2 = u"
         "successively E xs1" "successively E xs2" by blast
    from xs s(1-3) have "hd xs1 = a" "last xs2 = b" "distinct xs1" "distinct xs2"
      unfolding simple_path_def by auto
    with s have "simple_path E a (last xs1) xs1" "simple_path E (hd xs2) b xs2"
      unfolding simple_path_def by auto
    with s(1,4) show ?thesis by blast
  qed
  show "ps = qs"
  proof (cases "successively E ps")
    case pE: True
    with ps have p: "simple_path E a b ps" unfolding simple_path_def by simp
    show ?thesis
    proof (cases "successively E qs")
      case True
      with qs have "simple_path E a b qs" unfolding simple_path_def by simp
      with p show ?thesis by (rule old)
    next
      case False
      from split [OF qs False] obtain x y qs1 qs2 where
        q: "x = u \<and> y = v \<or> x = v \<and> y = u" "simple_path E a x qs1" "simple_path E y b qs2"
        by blast
      from p q(2,3) have "connected E a b" "connected E a x" "connected E y b"
        by (auto dest: simple_path_connected)
      then have "connected E x y"
        by (meson connected_trans connected_sym [OF sym])
      with q(1) nc nc' show ?thesis by blast
    qed
  next
    case pE: False
    from split [OF ps pE] obtain x y ps1 ps2 where
      p: "ps = ps1 @ ps2" "x = u \<and> y = v \<or> x = v \<and> y = u"
         "simple_path E a x ps1" "simple_path E y b ps2" by blast
    show ?thesis
    proof (cases "successively E qs")
      case True
      with qs have "simple_path E a b qs" unfolding simple_path_def by simp
      with p(3,4) have "connected E a b" "connected E a x" "connected E y b"
        by (auto dest: simple_path_connected)
      then have "connected E x y"
        by (meson connected_trans connected_sym [OF sym])
      with p(2) nc nc' show ?thesis by blast
    next
      case False
      from split [OF qs False] obtain x' y' qs1 qs2 where
        q: "qs = qs1 @ qs2" "x' = u \<and> y' = v \<or> x' = v \<and> y' = u"
           "simple_path E a x' qs1" "simple_path E y' b qs2" by blast
      have "x' = x"
      proof (rule ccontr)
        assume "x' \<noteq> x"
        with p(2) q(2) have "x' = y" by auto
        from p(3) q(3) have "connected E a x" "connected E a x'"
          by (auto dest: simple_path_connected)
        then have "connected E x y" unfolding \<open>x' = y\<close>
          by (meson connected_trans connected_sym [OF sym])
        with p(2) nc nc' show False by blast
      qed
      with p(2) q(2) nc have "y' = y" using connected_refl [of E u] by auto
      from old [OF p(3) q(3) [unfolded \<open>x' = x\<close>]] old [OF p(4) q(4) [unfolded \<open>y' = y\<close>]]
      show ?thesis by (simp add: p(1) q(1))
    qed
  qed
qed

lemma forest_no_edges:
  assumes "\<And>a b. \<not> E a b"
  shows "forest E"
  unfolding forest_def
proof (intro allI impI)
  fix a b ps qs
  have one: "xs = [a]" if "simple_path E a b xs" for xs
  proof (cases xs)
    case Nil
    with that show ?thesis by (simp add: simple_path_def)
  next
    case (Cons x ys)
    with that assms have "ys = []" by (cases ys) (auto simp: simple_path_def)
    with that Cons show ?thesis by (simp add: simple_path_def)
  qed
  assume "simple_path E a b ps" "simple_path E a b qs"
  then show "ps = qs" using one by blast
qed

subsection \<open>Representatives, path compression and merge\<close>

text \<open>
  On a heap in order \<open>find_rep\<close> returns the representative and keeps every
  representative, so \<^verbatim>\<open>operator==\<close> decides \<open>same_class\<close> and \<open>merge\<close> of two
  different classes joins exactly these two.
\<close>

lemma root_pres_refl: "root_pres h h"
  unfolding root_pres_def by blast

lemma root_presD: "root_pres h h' \<Longrightarrow> root h q s \<Longrightarrow> root h' q s"
  unfolding root_pres_def by blast

lemma root_fixed: "root h p r \<Longrightarrow> h r = r"
  by (induction rule: root.induct) auto

lemma root_unique: "root h p r \<Longrightarrow> root h p s \<Longrightarrow> r = s"
proof (induction arbitrary: s rule: root.induct)
  case (root_self p)
  from root_self(2,1) show ?case by (cases rule: root.cases) auto
next
  case (root_step p r)
  from root_step(4,1) have "root h (h p) s" by (cases rule: root.cases) auto
  then show ?case by (rule root_step.IH)
qed

lemma same_class_roots:
  assumes "root h p r1" "root h q r2"
  shows "same_class h p q \<longleftrightarrow> r1 = r2"
  unfolding same_class_def using assms by (blast dest: root_unique)

lemma root_upd:
  assumes "root h p r" "root h q s"
  shows "root (h(p := r)) q s"
  using assms(2)
proof (induction rule: root.induct)
  case (root_self q)
  show ?case
  proof (cases "q = p")
    case True
    with root_self have "root h p p" by (simp add: root.root_self)
    with assms(1) have "r = p" by (rule root_unique)
    with True show ?thesis by (simp add: root.root_self)
  next
    case False
    with root_self show ?thesis by (simp add: root.root_self)
  qed
next
  case (root_step q s)
  show ?case
  proof (cases "q = p")
    case True
    from root_step(1,2) have "root h q s" by (rule root.root_step)
    with assms(1) True have rs: "r = s" by (auto dest: root_unique)
    from assms(1) have fr: "h r = r" by (rule root_fixed)
    with root_step(1) True have "r \<noteq> p" by auto
    with fr have "root (h(p := r)) r r" by (simp add: root.root_self)
    then have "root (h(p := r)) ((h(p := r)) p) r" by simp
    moreover from \<open>r \<noteq> p\<close> have "(h(p := r)) p \<noteq> p" by simp
    ultimately have "root (h(p := r)) p r" by (rule root.root_step [rotated])
    with True rs show ?thesis by blast
  next
    case False
    with root_step show ?thesis by (auto intro: root.root_step)
  qed
qed

lemma find_rep_root:
  assumes "root h p r"
  shows "\<exists>h'. find_rep h p = Some (h', r) \<and> root_pres h h'"
  using assms
proof (induction rule: root.induct)
  case (root_self p)
  then show ?case by (subst find_rep.simps) (simp add: root_pres_refl)
next
  case (root_step p r)
  then obtain h1 where h1: "find_rep h (h p) = Some (h1, r)" "root_pres h h1" by blast
  from root_step(1,2) have "root h p r" by (rule root.root_step)
  with h1(2) have "root h1 p r" by (rule root_presD)
  with h1(2) have "root_pres h (h1(p := r))"
    unfolding root_pres_def by (blast intro: root_upd)
  moreover from root_step(1) h1(1) have "find_rep h p = Some (h1(p := r), r)"
    by (subst find_rep.simps) simp
  ultimately show ?case by blast
qed

lemma root_pres_trans: "root_pres h h1 \<Longrightarrow> root_pres h1 h2 \<Longrightarrow> root_pres h h2"
  unfolding root_pres_def by blast

lemma root_pres_uf_ok:
  assumes "uf_ok h" "root_pres h h'"
  shows "uf_ok h'"
  using assms unfolding uf_ok_def root_pres_def by blast

lemma root_pres_iff:
  assumes "uf_ok h" "root_pres h h'"
  shows "root h' q s \<longleftrightarrow> root h q s"
proof
  assume "root h q s"
  with assms(2) show "root h' q s" by (rule root_presD)
next
  assume s: "root h' q s"
  from assms(1) obtain t where t: "root h q t" unfolding uf_ok_def by blast
  with assms(2) have "root h' q t" by (rule root_presD)
  with s have "s = t" by (rule root_unique)
  with t show "root h q s" by simp
qed

lemma root_pres_same_class:
  assumes "uf_ok h" "root_pres h h'"
  shows "same_class h' a b \<longleftrightarrow> same_class h a b"
  unfolding same_class_def root_pres_iff [OF assms] ..

lemma ec_eq_ok:
  assumes "uf_ok h"
  shows "\<exists>h'. ec_eq h p q = Some (h', same_class h p q) \<and> root_pres h h'"
proof -
  from assms obtain r1 where r1: "root h p r1" unfolding uf_ok_def by blast
  from find_rep_root [OF r1] obtain h1 where h1: "find_rep h p = Some (h1, r1)" "root_pres h h1"
    by blast
  from assms obtain r2 where r2: "root h q r2" unfolding uf_ok_def by blast
  with h1(2) have "root h1 q r2" by (rule root_presD)
  from find_rep_root [OF this] obtain h2 where h2: "find_rep h1 q = Some (h2, r2)" "root_pres h1 h2"
    by blast
  have "same_class h p q \<longleftrightarrow> r1 = r2"
    using r1 r2 by (rule same_class_roots)
  with h1 h2 show ?thesis
    unfolding ec_eq_def by (auto intro: root_pres_trans)
qed

lemma root_link:
  assumes "root h a s" "h r1 = r1" "h r2 = r2" "r1 \<noteq> r2"
  shows "root (h(r2 := r1)) a (if s = r2 then r1 else s)"
  using assms(1)
proof (induction rule: root.induct)
  case (root_self a)
  show ?case
  proof (cases "a = r2")
    case True
    from assms(2,4) have "root (h(r2 := r1)) r1 r1" by (simp add: root.root_self)
    then have "root (h(r2 := r1)) ((h(r2 := r1)) r2) r1" by simp
    moreover from assms(4) have "(h(r2 := r1)) r2 \<noteq> r2" by simp
    ultimately have "root (h(r2 := r1)) r2 r1" by (rule root.root_step [rotated])
    with True assms(4) show ?thesis by (simp add: fun_upd_def)
  next
    case False
    with root_self show ?thesis by (simp add: root.root_self)
  qed
next
  case (root_step a s)
  from root_step(1) assms(3) have "a \<noteq> r2" by auto
  with root_step show ?case by (auto intro: root.root_step)
qed

lemma merge_ok:
  assumes ok: "uf_ok h" and ns: "\<not> same_class h p q"
  shows "\<exists>h'. merge h p q = Some h' \<and> uf_ok h' \<and>
           (\<forall>a b. same_class h' a b \<longleftrightarrow>
              same_class h a b \<or> same_class h a p \<and> same_class h q b
                               \<or> same_class h a q \<and> same_class h p b)"
proof -
  from ok obtain r1 where r1: "root h p r1" unfolding uf_ok_def by blast
  from find_rep_root [OF r1] obtain h1 where h1: "find_rep h p = Some (h1, r1)" "root_pres h h1"
    by blast
  from ok obtain r2 where r2: "root h q r2" unfolding uf_ok_def by blast
  with h1(2) have "root h1 q r2" by (rule root_presD)
  from find_rep_root [OF this] obtain h2 where h2: "find_rep h1 q = Some (h2, r2)" "root_pres h1 h2"
    by blast
  from h1(2) h2(2) have pres: "root_pres h h2" by (rule root_pres_trans)
  from ns same_class_roots [OF r1 r2] have ne: "r1 \<noteq> r2" by blast
  let ?h' = "h2(r2 := r1)"
  from h1(1) h2(1) ne have m: "merge h p q = Some ?h'" by (simp add: merge_def)
  from r1 r2 have "root h2 p r1" "root h2 q r2" by (auto intro: root_presD [OF pres])
  then have fx: "h2 r1 = r1" "h2 r2 = r2" by (auto dest: root_fixed)
  have link: "root ?h' a (if s = r2 then r1 else s)" if "root h a s" for a s
    using root_link [OF root_presD [OF pres that] fx ne] .
  have ok': "uf_ok ?h'"
    unfolding uf_ok_def
  proof
    fix a
    from ok obtain s where "root h a s" unfolding uf_ok_def by blast
    from link [OF this] show "\<exists>r. root ?h' a r" ..
  qed
  have cls: "same_class ?h' a b \<longleftrightarrow>
              same_class h a b \<or> same_class h a p \<and> same_class h q b
                               \<or> same_class h a q \<and> same_class h p b" for a b
  proof -
    from ok obtain s t where s: "root h a s" and t: "root h b t" unfolding uf_ok_def by blast
    have new: "same_class ?h' a b \<longleftrightarrow> (if s = r2 then r1 else s) = (if t = r2 then r1 else t)"
      using link [OF s] link [OF t] by (rule same_class_roots)
    have old: "same_class h a b \<longleftrightarrow> s = t" "same_class h a p \<longleftrightarrow> s = r1"
      "same_class h q b \<longleftrightarrow> r2 = t" "same_class h a q \<longleftrightarrow> s = r2" "same_class h p b \<longleftrightarrow> r1 = t"
      by (rule same_class_roots [OF s t] same_class_roots [OF s r1] same_class_roots [OF r2 t]
            same_class_roots [OF s r2] same_class_roots [OF r1 t])+
    show ?thesis unfolding new old using ne by auto
  qed
  from m ok' cls show ?thesis by blast
qed

lemma uf_ok_init: "uf_ok (\<lambda>p. p)"
  unfolding uf_ok_def by (blast intro: root.root_self)

lemma same_class_init: "same_class (\<lambda>p. p) a b \<longleftrightarrow> a = b"
proof -
  have "root (\<lambda>p. p) a r \<longleftrightarrow> r = a" for a r :: 'a
    using root_unique [of "\<lambda>p. p" a r a] by (auto intro: root.root_self)
  then show ?thesis unfolding same_class_def by auto
qed

subsection \<open>Setting a flag adds one edge\<close>

lemma symp_open_wall: "symp (open_wall adj Width Height)"
  unfolding symp_def open_wall_def open_step_def by blast

lemma length_set_wall: "length (set_wall w adj p) = length adj"
  by (simp add: set_wall_def)

lemma length_row_set_wall: "length (set_wall w adj p ! n) = length (adj ! n)"
proof (cases "n = nat (fst p)")
  case False
  then show ?thesis by (simp add: set_wall_def)
next
  case True
  show ?thesis
  proof (cases "n < length adj")
    case True
    with \<open>n = nat (fst p)\<close> show ?thesis by (simp add: set_wall_def)
  next
    case False
    with \<open>n = nat (fst p)\<close> show ?thesis by (simp add: set_wall_def list_update_beyond)
  qed
qed

lemma adj_at_set_wall:
  assumes "0 \<le> fst p" "0 \<le> snd p"
  shows "adj_at (set_wall w adj p) cy cx =
           (case adj_at adj cy cx of
              Inl e \<Rightarrow> Inl e
            | Inr a \<Rightarrow> Inr (if (cy, cx) = p then raise_flag w a else a))"
proof (cases "0 \<le> cy \<and> nat cy < length adj \<and> 0 \<le> cx \<and> nat cx < length (adj ! nat cy)")
  case False
  then show ?thesis
    unfolding adj_at_def by (auto simp: length_set_wall length_row_set_wall)
next
  case True
  obtain y x where p: "p = (y, x)" by (cases p)
  with assms have nn: "0 \<le> y" "0 \<le> x" by auto
  from True nn have eq: "nat cy = nat y \<longleftrightarrow> cy = y" "nat cx = nat x \<longleftrightarrow> cx = x" by auto
  from True show ?thesis
    unfolding adj_at_def set_wall_def p using eq
    by (auto simp: nth_list_update)
qed

lemma wall_open_set_wall:
  assumes wf: "wf_grid adj Width Height" and p: "in_grid Width Height p"
  shows "wall_open w' (set_wall w adj p) c \<longleftrightarrow> wall_open w' adj c \<or> w' = w \<and> c = p"
proof -
  from p have nn: "0 \<le> fst p" "0 \<le> snd p" by (auto simp: in_grid_def)
  from adj_at_wf [OF wf, of "fst p" "snd p"] p obtain a where a: "adj_at adj (fst p) (snd p) = Inr a"
    by auto
  show ?thesis
  proof (cases "c = p")
    case True
    with a show ?thesis
      unfolding wall_open_def adj_at_set_wall [OF nn]
      by (cases w; cases w') (auto simp: prod_eq_iff)
  next
    case False
    then show ?thesis
      unfolding wall_open_def adj_at_set_wall [OF nn]
      by (auto simp: prod_eq_iff split: sum.splits)
  qed
qed

lemma wf_grid_set_wall: "wf_grid (set_wall w adj p) Width Height \<longleftrightarrow> wf_grid adj Width Height"
  unfolding wf_grid_def list_all_length
  by (simp add: length_set_wall length_row_set_wall)

lemma open_wall_set_wall:
  assumes wf: "wf_grid adj Width Height" and p: "in_grid Width Height p"
    and q: "in_grid Width Height (beyond w p)"
  shows "open_wall (set_wall w adj p) Width Height = add_edge (open_wall adj Width Height) p (beyond w p)"
proof (intro ext)
  fix a b
  show "open_wall (set_wall w adj p) Width Height a b
          = add_edge (open_wall adj Width Height) p (beyond w p) a b"
    unfolding open_wall_def open_step_def add_edge_def wall_open_set_wall [OF wf p]
    using p q by (cases w) auto
qed

subsection \<open>The invariant is kept by every iteration\<close>

lemma gen_inv_heap:
  assumes inv: "gen_inv Width Height msk st" and pres: "root_pres (pos2ec st) h"
    and adj: "adj_out st' = adj_out st" and heap: "pos2ec st' = h"
  shows "gen_inv Width Height msk st'"
proof -
  from inv have ok: "uf_ok (pos2ec st)" by (simp add: gen_inv_def)
  from root_pres_uf_ok [OF ok pres] root_pres_same_class [OF ok pres] inv
  show ?thesis unfolding gen_inv_def adj heap by simp
qed

lemma gen_inv_knocked:
  assumes inv: "gen_inv Width Height msk st"
    and p: "in_grid Width Height p" "in_grid Width Height (beyond w p)" "p \<notin> msk"
    and ok': "uf_ok h'"
    and cls: "\<forall>a b. same_class h' a b \<longleftrightarrow>
                same_class (pos2ec st) a b
                \<or> same_class (pos2ec st) a p \<and> same_class (pos2ec st) (beyond w p) b
                \<or> same_class (pos2ec st) a (beyond w p) \<and> same_class (pos2ec st) p b"
    and ns: "\<not> same_class (pos2ec st) p (beyond w p)"
    and adj: "adj_out st' = set_wall w (adj_out st) p" and heap: "pos2ec st' = h'"
  shows "gen_inv Width Height msk st'"
proof -
  let ?E = "open_wall (adj_out st) Width Height"
  let ?q = "beyond w p"
  from inv have wf: "wf_grid (adj_out st) Width Height"
    and conn: "\<And>a b. same_class (pos2ec st) a b \<longleftrightarrow> connected ?E a b"
    and f: "forest ?E"
    and fl: "\<And>w p. wall_open w (adj_out st) p \<Longrightarrow> p \<notin> msk \<and> in_grid Width Height (beyond w p)"
    unfolding gen_inv_def by blast+
  note E' = open_wall_set_wall [OF wf p(1,2)]
  from ns have nc: "\<not> connected ?E p ?q" by (simp add: conn)
  have "wf_grid (adj_out st') Width Height" using wf by (simp add: adj wf_grid_set_wall)
  moreover have "\<forall>a b. same_class (pos2ec st') a b \<longleftrightarrow> connected (open_wall (adj_out st') Width Height) a b"
    unfolding heap adj E' connected_add_edge [OF symp_open_wall] using cls by (simp add: conn)
  moreover have "forest (open_wall (adj_out st') Width Height)"
    unfolding adj E' using symp_open_wall f nc by (rule forest_add_edge)
  moreover have "\<forall>w' c. wall_open w' (adj_out st') c \<longrightarrow> c \<notin> msk \<and> in_grid Width Height (beyond w' c)"
    unfolding adj wall_open_set_wall [OF wf p(1)] using fl p(2,3) by blast
  ultimately show ?thesis using ok' unfolding gen_inv_def heap by blast
qed

lemma knock_cases:
  assumes inv: "gen_inv Width Height msk st"
  shows "(\<exists>e. knock w Width Height msk p st = Some (Inl e)) \<or>
         (\<exists>st'. knock w Width Height msk p st = Some (Inr (False, st')) \<and>
                 gen_inv Width Height msk st' \<and> adj_out st' = adj_out st \<and>
                 rand_calls st' = rand_calls st) \<or>
         (\<exists>st'. knock w Width Height msk p st = Some (Inr (True, st')) \<and>
                 gen_inv Width Height msk st' \<and> adj_out st' = set_wall w (adj_out st) p \<and>
                 rand_calls st' = rand_calls st \<and>
                 p \<notin> msk \<and> in_grid Width Height p \<and> in_grid Width Height (beyond w p) \<and>
                 \<not> wall_open w (adj_out st) p \<and>
                 \<not> same_class (pos2ec st) p (beyond w p))"
proof (cases "p \<in> msk")
  case True
  with inv show ?thesis by (simp add: knock_def)
next
  case nm: False
  show ?thesis
  proof (cases "adj_at (adj_out st) (fst p) (snd p)")
    case (Inl e)
    with nm show ?thesis by (simp add: knock_def)
  next
    case (Inr a)
    show ?thesis
    proof (cases "flag w a")
      case True
      with nm Inr inv show ?thesis by (simp add: knock_def)
    next
      case nf: False
      with Inr have no: "\<not> wall_open w (adj_out st) p" by (simp add: wall_open_def)
      show ?thesis
      proof (cases "in_grid Width Height p \<and> in_grid Width Height (beyond w p)")
        case False
        with nm Inr nf show ?thesis by (simp add: knock_def)
      next
        case ing: True
        from inv have ok: "uf_ok (pos2ec st)" by (simp add: gen_inv_def)
        from ec_eq_ok [OF ok, of p "beyond w p"] obtain h1 where
          h1: "ec_eq (pos2ec st) p (beyond w p) = Some (h1, same_class (pos2ec st) p (beyond w p))"
              "root_pres (pos2ec st) h1" by blast
        show ?thesis
        proof (cases "same_class (pos2ec st) p (beyond w p)")
          case True
          let ?st' = "st\<lparr>pos2ec := h1\<rparr>"
          from nm Inr nf ing h1(1) True
          have "knock w Width Height msk p st = Some (Inr (False, ?st'))"
            by (simp add: knock_def)
          moreover have "gen_inv Width Height msk ?st'"
            by (rule gen_inv_heap [OF inv h1(2)]) simp_all
          ultimately show ?thesis by simp
        next
          case ns: False
          from root_pres_uf_ok [OF ok h1(2)] have ok1: "uf_ok h1" .
          note sc = root_pres_same_class [OF ok h1(2)]
          from ns have ns1: "\<not> same_class h1 p (beyond w p)" by (simp add: sc)
          from merge_ok [OF ok1 ns1] obtain h2 where
            h2: "merge h1 p (beyond w p) = Some h2" "uf_ok h2"
                "\<forall>a b. same_class h2 a b \<longleftrightarrow>
                   same_class h1 a b \<or> same_class h1 a p \<and> same_class h1 (beyond w p) b
                                  \<or> same_class h1 a (beyond w p) \<and> same_class h1 p b"
            by blast
          let ?st' = "st\<lparr>adj_out := set_wall w (adj_out st) p, pos2ec := h2\<rparr>"
          from nm Inr nf ing h1(1) ns h2(1)
          have "knock w Width Height msk p st = Some (Inr (True, ?st'))"
            by (simp add: knock_def)
          moreover have "gen_inv Width Height msk ?st'"
            using inv conjunct1 [OF ing] conjunct2 [OF ing] nm h2(2) h2(3) [unfolded sc] ns
            by (rule gen_inv_knocked [where w = w and p = p and h' = h2]) simp_all
          ultimately show ?thesis using nm ing no ns by simp
        qed
      qed
    qed
  qed
qed

lemma gen_inv_cong:
  assumes "adj_out st' = adj_out st" "pos2ec st' = pos2ec st"
  shows "gen_inv Width Height msk st' \<longleftrightarrow> gen_inv Width Height msk st"
  unfolding gen_inv_def assms ..

lemma drawn_simps [simp]:
  "adj_out (drawn st) = adj_out st" "pos2ec (drawn st) = pos2ec st"
  "rand_calls (drawn st) = Suc (rand_calls st)"
  by (simp_all add: drawn_def)

lemma gen_iter_cases:
  assumes inv: "gen_inv Width Height msk st"
  shows "(\<exists>e. gen_iter rng Width Height start finish msk st = Some (Inl e)) \<or>
         (\<exists>c. gen_iter rng Width Height start finish msk st = Some (Inr c) \<and>
              gen_inv Width Height msk (ctl_state c) \<and>
              iteration_effect Width Height msk start finish st c \<and>
              rand_calls (ctl_state c) = rand_calls st + 3 \<and>
              (is_break c \<longrightarrow> same_class (pos2ec (ctl_state c)) start finish \<and>
                 in_grid Width Height start \<and> in_grid Width Height finish))"
proof -
  let ?st3 = "drawn (drawn (drawn st))"
  let ?w = "if rand rng st mod 2 = 0 then East else South"
  let ?cx = "if ?w = East then c_mod (rand rng (drawn st)) (Width - 1)
             else c_mod (rand rng (drawn st)) Width"
  let ?cy = "if ?w = East then c_mod (rand rng (drawn (drawn st))) Height
             else c_mod (rand rng (drawn (drawn st))) (Height - 1)"
  have inv3: "gen_inv Width Height msk ?st3"
    using inv by (simp add: gen_inv_cong [of ?st3 st])
  show ?thesis
  proof (cases ?cx)
    case (Inl e)
    then show ?thesis by (simp add: gen_iter_def Let_def)
  next
    case x: (Inr x)
    show ?thesis
    proof (cases ?cy)
      case (Inl e)
      with x show ?thesis by (simp add: gen_iter_def Let_def)
    next
      case y: (Inr y)
      have unfold: "gen_iter rng Width Height start finish msk st =
        (case knock ?w Width Height msk (y, x) ?st3 of
           None \<Rightarrow> None
         | Some (Inl e) \<Rightarrow> Some (Inl e)
         | Some (Inr (False, st4)) \<Rightarrow> Some (Inr (Continue st4))
         | Some (Inr (True, st4)) \<Rightarrow>
             (let st5 = st4\<lparr>productive_iterations := productive_iterations st4 + 1\<rparr> in
              if \<not> (in_grid Width Height start \<and> in_grid Width Height finish)
              then Some (Inl OutOfBounds)
              else case ec_eq (pos2ec st5) start finish of
                None \<Rightarrow> None
              | Some (h, same) \<Rightarrow>
                  if same then Some (Inr (Break (st5\<lparr>pos2ec := h\<rparr>)))
                  else Some (Inr (Continue (st5\<lparr>pos2ec := h\<rparr>)))))"
        using x y unfolding gen_iter_def Let_def by simp
      from knock_cases [OF inv3, of ?w "(y, x)"]
      consider (err) e where "knock ?w Width Height msk (y, x) ?st3 = Some (Inl e)"
        | (skip) st4 where "knock ?w Width Height msk (y, x) ?st3 = Some (Inr (False, st4))"
            "gen_inv Width Height msk st4" "adj_out st4 = adj_out st" "rand_calls st4 = rand_calls st + 3"
        | (prod) st4 where "knock ?w Width Height msk (y, x) ?st3 = Some (Inr (True, st4))"
            "gen_inv Width Height msk st4" "adj_out st4 = set_wall ?w (adj_out st) (y, x)"
            "rand_calls st4 = rand_calls st + 3"
            "\<not> wall_open ?w (adj_out st) (y, x)"
            "\<not> same_class (pos2ec st) (y, x) (beyond ?w (y, x))"
            "in_grid Width Height (y, x)" "in_grid Width Height (beyond ?w (y, x))" "(y, x) \<notin> msk"
        by auto
      then show ?thesis
      proof cases
        case err
        then show ?thesis unfolding unfold by simp
      next
        case skip
        then show ?thesis unfolding unfold by (simp add: iteration_effect_def)
      next
        case prod
        let ?st5 = "st4\<lparr>productive_iterations := productive_iterations st4 + 1\<rparr>"
        have inv5: "gen_inv Width Height msk ?st5"
          using prod(2) by (simp add: gen_inv_cong [of ?st5 st4])
        show ?thesis
        proof (cases "in_grid Width Height start \<and> in_grid Width Height finish")
          case False
          with prod(1) show ?thesis unfolding unfold by (simp add: Let_def)
        next
          case ing: True
          from inv5 have ok: "uf_ok (pos2ec ?st5)" by (simp add: gen_inv_def)
          from ec_eq_ok [OF ok, of start finish] obtain h where
            h: "ec_eq (pos2ec ?st5) start finish = Some (h, same_class (pos2ec ?st5) start finish)"
               "root_pres (pos2ec ?st5) h" by blast
          let ?st6 = "?st5\<lparr>pos2ec := h\<rparr>"
          have inv6: "gen_inv Width Height msk ?st6"
            by (rule gen_inv_heap [OF inv5 h(2)]) simp_all
          have sc: "same_class h start finish \<longleftrightarrow> same_class (pos2ec ?st5) start finish"
            by (rule root_pres_same_class [OF ok h(2)])
          let ?c = "(if same_class (pos2ec ?st5) start finish then Break else Continue) ?st6"
          have "in_grid Width Height (y, x) \<and> in_grid Width Height (beyond ?w (y, x)) \<and> (y, x) \<notin> msk \<and>
                adj_out (ctl_state ?c) = set_wall ?w (adj_out st) (y, x) \<and>
                \<not> wall_open ?w (adj_out st) (y, x) \<and>
                \<not> same_class (pos2ec st) (y, x) (beyond ?w (y, x)) \<and>
                (is_break ?c \<longleftrightarrow> same_class (pos2ec (ctl_state ?c)) start finish)"
            using prod(3,5,6,7,8,9) sc by simp
          then have rm: "iteration_effect Width Height msk start finish st ?c"
            unfolding iteration_effect_def by blast
          have res: "gen_iter rng Width Height start finish msk st =
                  Some (Inr ((if same_class (pos2ec ?st5) start finish then Break else Continue) ?st6))"
            unfolding unfold using prod(1) ing h(1) by (simp add: Let_def)
          show ?thesis
            unfolding res using inv6 rm sc ing prod(4) by simp
        qed
      qed
    qed
  qed
qed

lemma gen_loop_inv:
  assumes "gen_inv Width Height msk st"
    and "gen_loop n rng Width Height start finish msk st = Some (Inr st')"
  shows "gen_inv Width Height msk st' \<and> same_class (pos2ec st') start finish \<and>
         in_grid Width Height start \<and> in_grid Width Height finish"
  using assms
proof (induction n arbitrary: st)
  case 0
  then show ?case by simp
next
  case (Suc n)
  from gen_iter_cases [OF Suc.prems(1), of rng start finish]
  consider (err) e where "gen_iter rng Width Height start finish msk st = Some (Inl e)"
    | (ok) c where "gen_iter rng Width Height start finish msk st = Some (Inr c)"
        "gen_inv Width Height msk (ctl_state c)"
        "is_break c \<longrightarrow> same_class (pos2ec (ctl_state c)) start finish \<and>
                 in_grid Width Height start \<and> in_grid Width Height finish"
    by blast
  then show ?case
  proof cases
    case err
    with Suc.prems(2) show ?thesis by simp
  next
    case ok
    show ?thesis
    proof (cases c)
      case (Break s)
      with ok Suc.prems(2) show ?thesis by simp
    next
      case (Continue s)
      let ?s = "s\<lparr>total_iterations := total_iterations s + 1\<rparr>"
      from Continue ok(1) Suc.prems(2)
      have run: "gen_loop n rng Width Height start finish msk ?s = Some (Inr st')" by simp
      from Continue ok(2) have "gen_inv Width Height msk ?s"
        by (simp add: gen_inv_cong [of ?s s])
      from Suc.IH [OF this run] show ?thesis .
    qed
  qed
qed

subsection \<open>The states at the head of the loop\<close>

lemma gen_inv_classes:
  assumes "gen_inv Width Height msk st"
  shows "same_class (pos2ec st) a b \<longleftrightarrow> connected (open_wall (adj_out st) Width Height) a b"
  using assms unfolding gen_inv_def by blast

lemma gen_iter_Continue:
  assumes inv: "gen_inv Width Height msk st"
    and it: "gen_iter rng Width Height start finish msk st = Some (Inr (Continue st'))"
    and ns: "\<not> same_class (pos2ec st) start finish"
  shows "\<not> same_class (pos2ec st') start finish"
proof -
  let ?st3 = "drawn (drawn (drawn st))"
  have inv3: "gen_inv Width Height msk ?st3"
    using inv by (simp add: gen_inv_cong [of ?st3 st])
  from it obtain w p where
    k: "(\<exists>st4. knock w Width Height msk p ?st3 = Some (Inr (False, st4)) \<and> st' = st4) \<or>
        (\<exists>st4 h. knock w Width Height msk p ?st3 = Some (Inr (True, st4)) \<and>
           ec_eq (pos2ec (st4\<lparr>productive_iterations := productive_iterations st4 + 1\<rparr>)) start finish
             = Some (h, False) \<and> pos2ec st' = h)"
    unfolding gen_iter_def Let_def
    by (fastforce split: sum.splits option.splits bool.splits if_splits prod.splits)
  then show ?thesis
  proof
    assume "\<exists>st4. knock w Width Height msk p ?st3 = Some (Inr (False, st4)) \<and> st' = st4"
    then have kn: "knock w Width Height msk p ?st3 = Some (Inr (False, st'))" by blast
    with knock_cases [OF inv3, of w p] have "gen_inv Width Height msk st'" "adj_out st' = adj_out st"
      by auto
    with ns show ?thesis
      using gen_inv_classes [OF inv, of start finish] gen_inv_classes [of Width Height msk st' start finish]
      by simp
  next
    assume "\<exists>st4 h. knock w Width Height msk p ?st3 = Some (Inr (True, st4)) \<and>
           ec_eq (pos2ec (st4\<lparr>productive_iterations := productive_iterations st4 + 1\<rparr>)) start finish
             = Some (h, False) \<and> pos2ec st' = h"
    then obtain st4 h where kn: "knock w Width Height msk p ?st3 = Some (Inr (True, st4))"
      and eq: "ec_eq (pos2ec st4) start finish = Some (h, False)" and h: "pos2ec st' = h"
      by auto
    from kn knock_cases [OF inv3, of w p] have "gen_inv Width Height msk st4" by auto
    then have ok: "uf_ok (pos2ec st4)" by (simp add: gen_inv_def)
    from ec_eq_ok [OF ok, of start finish] eq
    have "\<not> same_class (pos2ec st4) start finish" "root_pres (pos2ec st4) h" by auto
    with root_pres_same_class [OF ok, of h start finish] h show ?thesis by simp
  qed
qed

lemma gen_reach_inv:
  assumes "gen_reach rng Width Height start finish msk st0 st" "gen_inv Width Height msk st0"
  shows "gen_inv Width Height msk st"
  using assms
proof (induction rule: gen_reach.induct)
  case reach_first
  then show ?case .
next
  case (reach_next st st')
  from gen_iter_cases [OF reach_next.IH [OF reach_next.prems], of rng start finish] reach_next.hyps(2)
  have "gen_inv Width Height msk st'" by auto
  then show ?case
    by (simp add: gen_inv_cong [of "st'\<lparr>total_iterations := total_iterations st' + 1\<rparr>" st'])
qed

lemma gen_reach_apart:
  assumes "gen_reach rng Width Height start finish msk st0 st" "gen_inv Width Height msk st0"
    "\<not> same_class (pos2ec st0) start finish"
  shows "\<not> same_class (pos2ec st) start finish"
  using assms
proof (induction rule: gen_reach.induct)
  case reach_first
  then show ?case by simp
next
  case (reach_next st st')
  from gen_reach_inv [OF reach_next.hyps(1) reach_next.prems(1)]
  have "gen_inv Width Height msk st" .
  from gen_iter_Continue [OF this reach_next.hyps(2) reach_next.IH [OF reach_next.prems]]
  show ?case by simp
qed

lemma gen_loop_reach:
  assumes "gen_loop n rng Width Height start finish msk st = Some (Inr st')"
    and "gen_reach rng Width Height start finish msk st0 st"
  shows "\<exists>s. gen_reach rng Width Height start finish msk st0 s \<and>
             gen_iter rng Width Height start finish msk s = Some (Inr (Break st'))"
  using assms
proof (induction n arbitrary: st)
  case 0
  then show ?case by simp
next
  case (Suc n)
  from Suc.prems(1) consider
    (brk) "gen_iter rng Width Height start finish msk st = Some (Inr (Break st'))"
    | (cont) s where "gen_iter rng Width Height start finish msk st = Some (Inr (Continue s))"
        "gen_loop n rng Width Height start finish msk (s\<lparr>total_iterations := total_iterations s + 1\<rparr>)
           = Some (Inr st')"
    by (auto split: option.splits sum.splits ctl.splits)
  then show ?case
  proof cases
    case brk
    with Suc.prems(2) show ?thesis by blast
  next
    case cont
    from Suc.prems(2) cont(1)
    have "gen_reach rng Width Height start finish msk st0 (s\<lparr>total_iterations := total_iterations s + 1\<rparr>)"
      by (rule reach_next)
    from Suc.IH [OF cont(2) this] show ?thesis .
  qed
qed

subsection \<open>More fuel does not change a result\<close>

lemma gen_loop_mono:
  assumes "gen_loop n rng Width Height start finish msk st = Some r"
  shows "gen_loop (n + k) rng Width Height start finish msk st = Some r"
  using assms
proof (induction n arbitrary: st)
  case 0
  then show ?case by simp
next
  case (Suc n)
  show ?case
  proof (cases "gen_iter rng Width Height start finish msk st")
    case None
    with Suc.prems show ?thesis by simp
  next
    case (Some a)
    show ?thesis
    proof (cases a)
      case (Inl e)
      with Some Suc.prems show ?thesis by simp
    next
      case (Inr c)
      show ?thesis
      proof (cases c)
        case (Break s)
        with Some Inr Suc.prems show ?thesis by simp
      next
        case (Continue s)
        with Some Inr Suc.prems
        have "gen_loop n rng Width Height start finish msk
                (s\<lparr>total_iterations := total_iterations s + 1\<rparr>) = Some r" by simp
        from Suc.IH [OF this] Some Inr Continue show ?thesis by simp
      qed
    qed
  qed
qed

lemma gen_loop_fuel_independent:
  assumes "gen_loop n rng Width Height start finish msk st = Some r"
    and "gen_loop m rng Width Height start finish msk st = Some r'"
  shows "r = r'"
proof (cases "n \<le> m")
  case True
  then obtain k where "m = n + k" by (auto simp: le_iff_add)
  with gen_loop_mono [OF assms(1), of k] assms(2) show ?thesis by simp
next
  case False
  then obtain k where "n = m + k" by (metis le_iff_add nat_le_linear)
  with gen_loop_mono [OF assms(2), of k] assms(1) show ?thesis by simp
qed

subsection \<open>Initialisation and the result of Generate\<close>

lemma resize_rows_replicate:
  "resize_rows Width (replicate n []) =
     (if n = 0 \<or> 0 \<le> Width then Inr (replicate n (replicate (nat Width) Adjacency0))
      else Inl LengthError)"
  by (induction n) (auto simp: resize_def)

lemma init_grid_eq:
  "init_grid adj Width Height =
     (if Height < 0 \<or> 0 < Height \<and> Width < 0 then Inl LengthError
      else Inr (replicate (nat Height) (replicate (nat Width) Adjacency0)))"
  unfolding init_grid_def Let_def resize_def
  by (auto simp: resize_rows_replicate)

lemma init_grid_wf:
  assumes "init_grid adj Width Height = Inr adj0"
  shows "wf_grid adj0 Width Height"
  using assms unfolding init_grid_eq wf_grid_def
  by (auto split: if_splits simp: list_all_iff)

lemma replicate_no_walls: "\<not> wall_open w (replicate n (replicate m Adjacency0)) p"
  unfolding wall_open_def adj_at_def by (cases w) (auto simp: Adjacency0_def)

lemma init_grid_no_walls:
  assumes "init_grid adj Width Height = Inr adj0"
  shows "\<not> wall_open w adj0 p"
proof -
  from assms have "adj0 = replicate (nat Height) (replicate (nat Width) Adjacency0)"
    unfolding init_grid_eq by (simp split: if_splits)
  then show ?thesis by (simp only: replicate_no_walls not_False_eq_True)
qed

lemma gen_inv_init:
  assumes "init_grid adj Width Height = Inr adj0"
  shows "gen_inv Width Height msk (init_state adj0)"
proof -
  let ?E = "open_wall adj0 Width Height"
  note nw = init_grid_no_walls [OF assms]
  have ne: "\<not> ?E a b" for a b
    unfolding open_wall_def open_step_def using nw by blast
  have "connected ?E a b \<longleftrightarrow> a = b" for a b
  proof
    assume "connected ?E a b"
    then have "?E\<^sup>*\<^sup>* a b" by (simp add: connected_iff_rtranclp)
    then show "a = b" by (induction rule: rtranclp_induct) (auto simp: ne)
  qed (simp add: connected_refl)
  moreover have "forest ?E" using ne by (rule forest_no_edges)
  ultimately show ?thesis
    unfolding gen_inv_def init_state_def
    using init_grid_wf [OF assms] nw by (simp add: uf_ok_init same_class_init)
qed

lemma Generate_Inr:
  assumes "Generate fuel rng adj Width Height sx sy fx fy msk = Some (Inr g)"
  shows "\<exists>adj0 st'. init_grid adj Width Height = Inr adj0 \<and>
           gen_loop fuel rng Width Height (sy, sx) (fy, fx) msk (init_state adj0) = Some (Inr st') \<and>
           g = adj_out st'"
proof -
  from assms obtain adj0 z where i: "init_grid adj Width Height = Inr adj0"
    and l: "gen_loop fuel rng Width Height (sy, sx) (fy, fx) msk (init_state adj0) = Some z"
    and z: "map_sum id adj_out z = Inr g"
    unfolding Generate_def by (auto split: sum.splits)
  from z obtain st' where "z = Inr st'" "g = adj_out st'" by (cases z) auto
  with i l show ?thesis by blast
qed

lemma Generate_inv:
  assumes "Generate fuel rng adj Width Height sx sy fx fy msk = Some (Inr g)"
  shows "wf_grid g Width Height" "forest (open_wall g Width Height)"
    "connected (open_wall g Width Height) (sy, sx) (fy, fx)"
    "in_grid Width Height (sy, sx)" "in_grid Width Height (fy, fx)"
    "wall_open w g p \<Longrightarrow> p \<notin> msk \<and> in_grid Width Height (beyond w p)"
proof -
  from Generate_Inr [OF assms] obtain adj0 st' where
    i: "init_grid adj Width Height = Inr adj0" and
    l: "gen_loop fuel rng Width Height (sy, sx) (fy, fx) msk (init_state adj0) = Some (Inr st')" and
    g: "g = adj_out st'" by blast
  from gen_loop_inv [OF gen_inv_init [OF i] l]
  have inv: "gen_inv Width Height msk st'" and sc: "same_class (pos2ec st') (sy, sx) (fy, fx)"
    and ing: "in_grid Width Height (sy, sx)" "in_grid Width Height (fy, fx)" by blast+
  from inv show "wf_grid g Width Height" "forest (open_wall g Width Height)"
    unfolding g gen_inv_def by blast+
  from sc show "connected (open_wall g Width Height) (sy, sx) (fy, fx)"
    unfolding g gen_inv_classes [OF inv] .
  from ing show "in_grid Width Height (sy, sx)" "in_grid Width Height (fy, fx)" .
  from inv show "wall_open w g p \<Longrightarrow> p \<notin> msk \<and> in_grid Width Height (beyond w p)"
    unfolding g gen_inv_def by blast
qed

lemma Generate_Solve:
  assumes "Generate fuel rng adj Width Height sx sy fx fy msk = Some (Inr g)"
  shows "\<exists>path. Solve g Width Height sx sy fx fy path_out = Some (Inr (True, path)) \<and>
           simple_path (open_wall g Width Height) (sy, sx) (fy, fx) path"
proof -
  note inv = Generate_inv [OF assms]
  from Solve_decides [OF inv(1,4), of fx fy path_out] inv(3) obtain path where
    "Solve g Width Height sx sy fx fy path_out = Some (Inr (True, path))" by auto
  with Solve_True_walk [OF inv(1,4) this] show ?thesis by blast
qed

lemma Generate_unique_path:
  assumes "Generate fuel rng adj Width Height sx sy fx fy msk = Some (Inr g)"
  shows "\<exists>!ps. simple_path (open_wall g Width Height) (sy, sx) (fy, fx) ps"
proof -
  note inv = Generate_inv [OF assms]
  from inv(3) obtain ps where "simple_path (open_wall g Width Height) (sy, sx) (fy, fx) ps"
    unfolding connected_simple_path ..
  with inv(2) show ?thesis unfolding forest_def by blast
qed

lemma Generate_deterministic:
  assumes "Generate fuel1 rng adj1 Width Height sx sy fx fy msk = Some r1"
    and "Generate fuel2 rng adj2 Width Height sx sy fx fy msk = Some r2"
  shows "r1 = r2"
proof (cases "init_grid adj1 Width Height")
  case (Inl e)
  moreover have "init_grid adj2 Width Height = init_grid adj1 Width Height"
    by (simp add: init_grid_eq)
  ultimately have i: "init_grid adj1 Width Height = Inl e" "init_grid adj2 Width Height = Inl e"
    by simp_all
  have "Generate fuel1 rng adj1 Width Height sx sy fx fy msk = Some (Inl e)"
    "Generate fuel2 rng adj2 Width Height sx sy fx fy msk = Some (Inl e)"
    unfolding Generate_def i by simp_all
  with assms show ?thesis by simp
next
  case (Inr adj0)
  moreover have "init_grid adj2 Width Height = init_grid adj1 Width Height"
    by (simp add: init_grid_eq)
  ultimately obtain s1 s2 where
    "gen_loop fuel1 rng Width Height (sy, sx) (fy, fx) msk (init_state adj0) = Some s1"
    "gen_loop fuel2 rng Width Height (sy, sx) (fy, fx) msk (init_state adj0) = Some s2"
    "r1 = map_sum id adj_out s1" "r2 = map_sum id adj_out s2"
    using assms by (auto simp: Generate_def)
  with gen_loop_fuel_independent [of fuel1 rng Width Height "(sy, sx)" "(fy, fx)" msk "init_state adj0" s1 fuel2 s2]
  show ?thesis by simp
qed

subsection \<open>When the loop is left\<close>

text \<open>
  The loop is left exactly by an iteration that removes a wall and after which start and
  finish are in the same class; the run from the first state then returns the grid of that
  iteration.  With Width and Height at least 2 and start and finish in the grid an
  iteration never ends in an error.
\<close>

lemma set_wall_changes:
  assumes "wf_grid adj Width Height" "in_grid Width Height p" "\<not> wall_open w adj p"
  shows "set_wall w adj p \<noteq> adj"
proof
  assume "set_wall w adj p = adj"
  with wall_open_set_wall [OF assms(1,2), of w w p] assms(3) show False by simp
qed

lemma iteration_effect_removes:
  assumes wf: "wf_grid (adj_out st) Width Height"
    and eff: "iteration_effect Width Height msk start finish st c"
  shows "removes_between_classes Width Height st (ctl_state c)"
  using eff unfolding iteration_effect_def
proof (elim disjE exE conjE)
  assume "adj_out (ctl_state c) = adj_out st"
  then show ?thesis by (simp add: removes_between_classes_def)
next
  fix w p
  assume p: "in_grid Width Height p" "in_grid Width Height (beyond w p)"
    and adj: "adj_out (ctl_state c) = set_wall w (adj_out st) p"
    and ns: "\<not> same_class (pos2ec st) p (beyond w p)"
  show ?thesis
    unfolding removes_between_classes_def adj wall_open_set_wall [OF wf p(1)]
    using p ns by blast
qed

lemma iteration_effect_break:
  assumes wf: "wf_grid (adj_out st) Width Height"
    and eff: "iteration_effect Width Height msk start finish st c"
  shows "is_break c \<longleftrightarrow>
           adj_out (ctl_state c) \<noteq> adj_out st \<and> same_class (pos2ec (ctl_state c)) start finish"
  using eff unfolding iteration_effect_def
proof (elim disjE exE conjE)
  assume "adj_out (ctl_state c) = adj_out st" "\<not> is_break c"
  then show ?thesis by simp
next
  fix w p
  assume p: "in_grid Width Height p" and adj: "adj_out (ctl_state c) = set_wall w (adj_out st) p"
    and no: "\<not> wall_open w (adj_out st) p"
    and br: "is_break c \<longleftrightarrow> same_class (pos2ec (ctl_state c)) start finish"
  from set_wall_changes [OF wf p no] adj br show ?thesis by simp
qed

lemma gen_reach_before_removal:
  assumes "gen_reach rng Width Height start finish msk st0 st" "gen_inv Width Height msk st0"
  shows "adj_out st = adj_out st0 \<or> \<not> same_class (pos2ec st) start finish"
  using assms
proof (induction rule: gen_reach.induct)
  case reach_first
  then show ?case by simp
next
  case (reach_next st st')
  let ?s = "st'\<lparr>total_iterations := total_iterations st' + 1\<rparr>"
  from gen_reach_inv [OF reach_next.hyps(1) reach_next.prems]
  have inv: "gen_inv Width Height msk st" .
  then have wf: "wf_grid (adj_out st) Width Height" by (simp add: gen_inv_def)
  from gen_iter_cases [OF inv, of rng start finish] reach_next.hyps(2)
  have eff: "iteration_effect Width Height msk start finish st (Continue st')" by auto
  from iteration_effect_break [OF wf eff]
  have k: "adj_out st' = adj_out st \<or> \<not> same_class (pos2ec st') start finish" by auto
  show ?case
  proof (cases "\<not> same_class (pos2ec st') start finish")
    case True
    then show ?thesis by simp
  next
    case False
    with k have same: "adj_out st' = adj_out st" by blast
    from False gen_iter_Continue [OF inv reach_next.hyps(2)]
    have "same_class (pos2ec st) start finish" by blast
    with reach_next.IH [OF reach_next.prems] same show ?thesis by simp
  qed
qed

lemma gen_reach_loop:
  assumes "gen_reach rng Width Height start finish msk st0 st"
    and "gen_loop n rng Width Height start finish msk st = Some r"
  shows "\<exists>m. gen_loop m rng Width Height start finish msk st0 = Some r"
  using assms
proof (induction arbitrary: n rule: gen_reach.induct)
  case reach_first
  then show ?case by blast
next
  case (reach_next st st')
  from reach_next.hyps(2) reach_next.prems
  have "gen_loop (Suc n) rng Width Height start finish msk st = Some r" by simp
  from reach_next.IH [OF this] show ?case .
qed

lemma Generate_returns_at_break:
  assumes i: "init_grid adj Width Height = Inr adj0"
    and r: "gen_reach rng Width Height (sy, sx) (fy, fx) msk (init_state adj0) st"
    and b: "gen_iter rng Width Height (sy, sx) (fy, fx) msk st = Some (Inr (Break st'))"
  shows "\<exists>fuel. Generate fuel rng adj Width Height sx sy fx fy msk = Some (Inr (adj_out st'))"
proof -
  from b have "gen_loop (Suc 0) rng Width Height (sy, sx) (fy, fx) msk st = Some (Inr st')"
    by simp
  from gen_reach_loop [OF r this] obtain m where
    "gen_loop m rng Width Height (sy, sx) (fy, fx) msk (init_state adj0) = Some (Inr st')" ..
  then have "Generate m rng adj Width Height sx sy fx fy msk = Some (Inr (adj_out st'))"
    by (simp add: Generate_def i)
  then show ?thesis ..
qed

lemma c_mod_pos:
  assumes "0 \<le> a" "0 < b"
  shows "\<exists>x. c_mod a b = Inr x \<and> 0 \<le> x \<and> x < b"
proof -
  have "c_mod a b = Inr (a mod b)"
  proof (cases "a = 0")
    case True
    with assms show ?thesis by (simp add: c_mod_def)
  next
    case False
    with assms have "0 < a" by simp
    with assms show ?thesis by (simp add: c_mod_def)
  qed
  with assms show ?thesis by simp
qed

lemma knock_no_error:
  assumes inv: "gen_inv Width Height msk st"
    and p: "in_grid Width Height p" "in_grid Width Height (beyond w p)"
  shows "knock w Width Height msk p st \<noteq> Some (Inl e)"
proof -
  from inv have wf: "wf_grid (adj_out st) Width Height" by (simp add: gen_inv_def)
  from adj_at_wf [OF wf, of "fst p" "snd p"] p(1) obtain a where
    a: "adj_at (adj_out st) (fst p) (snd p) = Inr a" by auto
  show ?thesis
    unfolding knock_def using a p
    by (auto split: if_splits prod.splits simp: bind_eq_Some_conv)
qed

lemma gen_iter_no_error:
  assumes inv: "gen_inv Width Height msk st"
    and big: "2 \<le> Width" "2 \<le> Height"
    and ends: "in_grid Width Height start" "in_grid Width Height finish"
  shows "\<exists>c. gen_iter rng Width Height start finish msk st = Some (Inr c)"
proof -
  let ?st3 = "drawn (drawn (drawn st))"
  let ?w = "if rand rng st mod 2 = 0 then East else South"
  let ?r1 = "rand rng (drawn st)"
  let ?r2 = "rand rng (drawn (drawn st))"
  have inv3: "gen_inv Width Height msk ?st3"
    using inv by (simp add: gen_inv_cong [of ?st3 st])
  have nn: "0 \<le> ?r1" "0 \<le> ?r2" by (simp_all add: rand_def)
  obtain x where x: "(if ?w = East then c_mod ?r1 (Width - 1) else c_mod ?r1 Width) = Inr x"
    and xb: "0 \<le> x" "x < (if ?w = East then Width - 1 else Width)"
    using c_mod_pos [OF nn(1), of "Width - 1"] c_mod_pos [OF nn(1), of Width] big
    by (cases "?w = East") auto
  obtain y where y: "(if ?w = East then c_mod ?r2 Height else c_mod ?r2 (Height - 1)) = Inr y"
    and yb: "0 \<le> y" "y < (if ?w = East then Height else Height - 1)"
    using c_mod_pos [OF nn(2), of "Height - 1"] c_mod_pos [OF nn(2), of Height] big
    by (cases "?w = East") auto
  have p: "in_grid Width Height (y, x)" "in_grid Width Height (beyond ?w (y, x))"
    using xb yb by (auto simp: in_grid_def split: if_splits)
  note ne = knock_no_error [OF inv3 p]
  from gen_iter_cases [OF inv, of rng start finish] show ?thesis
  proof
    assume "\<exists>e. gen_iter rng Width Height start finish msk st = Some (Inl e)"
    then obtain e where e: "gen_iter rng Width Height start finish msk st = Some (Inl e)" ..
    have unfold: "gen_iter rng Width Height start finish msk st =
        (case knock ?w Width Height msk (y, x) ?st3 of
           None \<Rightarrow> None
         | Some (Inl e) \<Rightarrow> Some (Inl e)
         | Some (Inr (False, st4)) \<Rightarrow> Some (Inr (Continue st4))
         | Some (Inr (True, st4)) \<Rightarrow>
             (let st5 = st4\<lparr>productive_iterations := productive_iterations st4 + 1\<rparr> in
              if \<not> (in_grid Width Height start \<and> in_grid Width Height finish)
              then Some (Inl OutOfBounds)
              else case ec_eq (pos2ec st5) start finish of
                None \<Rightarrow> None
              | Some (h, same) \<Rightarrow>
                  if same then Some (Inr (Break (st5\<lparr>pos2ec := h\<rparr>)))
                  else Some (Inr (Continue (st5\<lparr>pos2ec := h\<rparr>)))))"
      using x y unfolding gen_iter_def Let_def by simp
    from e [unfolded unfold] ne ends have False
      by (auto simp: Let_def split: option.splits sum.splits prod.splits bool.splits if_splits)
    then show ?thesis ..
  qed blast
qed

section \<open>Runs on grids of two rows and two columns\<close>

lemma run_bend:
  "Generate 3 (rng_of [0, 0, 0, 1, 0, 0, 0, 0, 1]) [] 2 2 0 0 1 1 {(0, 1)} = Some (Inr grid_bend)"
  by code_simp

lemma run_corner:
  "Generate 2 (rng_of [0, 0, 0, 1, 1, 0]) [] 2 2 0 0 1 1 {} = Some (Inr grid_corner)"
  by code_simp

lemma run_through:
  "Generate 2 (rng_of [0, 0, 1, 1, 1, 0]) [] 2 2 0 1 1 0 {(0, 0), (1, 1)} = Some (Inr grid_through)"
  by code_simp

lemma walls_corner: "walls_removed grid_corner = 2"
  by (simp add: walls_removed_def grid_corner_def)

lemma corner_alone: "Solve grid_corner 2 2 0 0 0 1 [] = Some (Inr (False, []))"
  by code_simp

lemma no_free_step_from_start: "\<not> free_step 2 2 {(0, 0), (1, 1)} (1, 0) q"
  unfolding free_step_def in_grid_def by (cases q) auto

lemma mask_disconnects_example: "\<not> connected (free_step 2 2 {(0, 0), (1, 1)}) (1, 0) (0, 1)"
proof
  assume "connected (free_step 2 2 {(0, 0), (1, 1)}) (1, 0) (0, 1)"
  then have "(free_step 2 2 {(0, 0), (1, 1)})\<^sup>*\<^sup>* (1, 0) (0, 1)"
    by (simp add: connected_iff_rtranclp)
  then show False
    by (cases rule: converse_rtranclpE) (auto simp: no_free_step_from_start)
qed

lemma Solve_2x2:
  "Solve [[\<lparr>to_east = a, to_south = b\<rparr>, \<lparr>to_east = False, to_south = c\<rparr>],
          [\<lparr>to_east = d, to_south = False\<rparr>, \<lparr>to_east = False, to_south = False\<rparr>]]
     2 2 0 0 1 1 path_out =
   Some (Inr (if b \<and> d then (True, [(0, 0), (1, 0), (1, 1)])
              else if a \<and> c then (True, [(0, 0), (0, 1), (1, 1)])
              else (False, path_out)))"
  by (cases a; cases b; cases c; cases d)
     (simp_all add: Solve_def solve_loop.simps expand_def try_north_def try_east_def
        try_south_def try_west_def adj_at_def step_def)

lemma list2: "length xs = 2 \<Longrightarrow> \<exists>x y. xs = [x, y]"
  by (cases xs; cases "tl xs") auto

lemma grid_2x2_shape:
  assumes wf: "wf_grid g 2 2"
    and fl: "\<And>w p. wall_open w g p \<Longrightarrow> in_grid 2 2 (beyond w p)"
  shows "\<exists>a b c d. g =
           [[\<lparr>to_east = a, to_south = b\<rparr>, \<lparr>to_east = False, to_south = c\<rparr>],
            [\<lparr>to_east = d, to_south = False\<rparr>, \<lparr>to_east = False, to_south = False\<rparr>]]"
proof -
  from wf have "length g = 2" by (simp add: wf_grid_def)
  then obtain r0 r1 where g: "g = [r0, r1]" using list2 by blast
  with wf have "length r0 = 2" "length r1 = 2" by (simp_all add: wf_grid_def)
  then obtain c00 c01 c10 c11 where r: "r0 = [c00, c01]" "r1 = [c10, c11]"
    using list2 by metis
  have "\<not> to_east c01"
    using fl [of East "(0, 1)"] by (auto simp: wall_open_def adj_at_def g r in_grid_def)
  moreover have "\<not> to_east c11"
    using fl [of East "(1, 1)"] by (auto simp: wall_open_def adj_at_def g r in_grid_def)
  moreover have "\<not> to_south c10"
    using fl [of South "(1, 0)"] by (auto simp: wall_open_def adj_at_def g r in_grid_def)
  moreover have "\<not> to_south c11"
    using fl [of South "(1, 1)"] by (auto simp: wall_open_def adj_at_def g r in_grid_def)
  ultimately have "c01 = \<lparr>to_east = False, to_south = to_south c01\<rparr>"
    "c10 = \<lparr>to_east = to_east c10, to_south = False\<rparr>"
    "c11 = \<lparr>to_east = False, to_south = False\<rparr>"
    "c00 = \<lparr>to_east = to_east c00, to_south = to_south c00\<rparr>"
    by simp_all
  with g r show ?thesis by metis
qed

lemma two_ways_2x2:
  fixes g :: Connections
  assumes g: "g = [[\<lparr>to_east = True, to_south = True\<rparr>, \<lparr>to_east = False, to_south = True\<rparr>],
            [\<lparr>to_east = True, to_south = False\<rparr>, \<lparr>to_east = False, to_south = False\<rparr>]]"
  shows "\<not> forest (open_wall g 2 2)"
proof
  assume f: "forest (open_wall g 2 2)"
  have "simple_path (open_wall g 2 2) (0, 0) (1, 1) [(0, 0), (0, 1), (1, 1)]"
    unfolding simple_path_def open_wall_def open_step_def wall_open_def adj_at_def in_grid_def g
    by simp
  moreover have "simple_path (open_wall g 2 2) (0, 0) (1, 1) [(0, 0), (1, 0), (1, 1)]"
    unfolding simple_path_def open_wall_def open_step_def wall_open_def adj_at_def in_grid_def g
    by simp
  ultimately have "[(0, 0), (0, 1), (1, 1)] = [(0, 0), (1, 0), (1, 1 :: int) :: Pos]"
    using f unfolding forest_def by blast
  then show False by simp
qed

lemma Generate_2x2:
  assumes run: "Generate fuel rng adj 2 2 0 0 1 1 {} = Some (Inr g)"
  shows "(walls_removed g = 2 \<or> walls_removed g = 3) \<and>
         (\<exists>path. Solve g 2 2 0 0 1 1 path_out = Some (Inr (True, path)) \<and> length path = 3)"
proof -
  note inv = Generate_inv [OF run]
  from grid_2x2_shape [OF inv(1)] inv(6) obtain a b c d where
    g: "g = [[\<lparr>to_east = a, to_south = b\<rparr>, \<lparr>to_east = False, to_south = c\<rparr>],
             [\<lparr>to_east = d, to_south = False\<rparr>, \<lparr>to_east = False, to_south = False\<rparr>]]"
    by blast
  from Generate_Solve [OF run, of path_out] obtain path where
    s: "Solve g 2 2 0 0 1 1 path_out = Some (Inr (True, path))" by blast
  from s have way: "b \<and> d \<or> a \<and> c" and len: "length path = 3"
    unfolding g Solve_2x2 by (auto split: if_splits)
  have "\<not> (a \<and> b \<and> c \<and> d)"
    using two_ways_2x2 [of g] inv(2) g by auto
  with way have "walls_removed g = 2 \<or> walls_removed g = 3"
    unfolding g walls_removed_def by auto
  with s len show ?thesis by blast
qed

lemma init_grid_2x2: "init_grid adj 2 2 = Inr grid_closed"
  by (simp add: init_grid_eq grid_closed_def numeral_2_eq_2)

lemma gen_reach_forest:
  assumes "init_grid adj Width Height = Inr adj0"
    and "gen_reach rng Width Height start finish msk (init_state adj0) st"
  shows "forest (open_wall (adj_out st) Width Height)"
  using gen_reach_inv [OF assms(2) gen_inv_init [OF assms(1)]] unfolding gen_inv_def by blast

lemma gen_reach_step:
  assumes "init_grid adj Width Height = Inr adj0"
    and "gen_reach rng Width Height start finish msk (init_state adj0) st"
    and "gen_iter rng Width Height start finish msk st = Some (Inr c)"
  shows "removes_between_classes Width Height st (ctl_state c)"
    "forest (open_wall (adj_out (ctl_state c)) Width Height)"
    "iteration_effect Width Height msk start finish st c"
proof -
  note inv = gen_reach_inv [OF assms(2) gen_inv_init [OF assms(1)]]
  from gen_iter_cases [OF inv, of rng start finish] assms(3)
  have c: "gen_inv Width Height msk (ctl_state c)"
    and eff: "iteration_effect Width Height msk start finish st c" by auto
  from inv have wf: "wf_grid (adj_out st) Width Height" by (simp add: gen_inv_def)
  from iteration_effect_removes [OF wf eff]
  show "removes_between_classes Width Height st (ctl_state c)" .
  from c show "forest (open_wall (adj_out (ctl_state c)) Width Height)"
    by (simp add: gen_inv_def)
  from eff show "iteration_effect Width Height msk start finish st c" .
qed

lemma gen_reach_not_connected:
  assumes "init_grid adj Width Height = Inr adj0"
    and "gen_reach rng Width Height start finish msk (init_state adj0) st"
    and "start \<noteq> finish"
  shows "\<not> connected (open_wall (adj_out st) Width Height) start finish"
proof -
  note inv0 = gen_inv_init [OF assms(1), of msk]
  from assms(3) have "\<not> same_class (pos2ec (init_state adj0)) start finish"
    by (simp add: init_state_def same_class_init)
  from gen_reach_apart [OF assms(2) inv0 this]
  show ?thesis unfolding gen_inv_classes [OF gen_reach_inv [OF assms(2) inv0]] .
qed

lemma successively_open_wall_in_grid:
  assumes "successively (open_wall adj Width Height) ps" "in_grid Width Height (hd ps)"
  shows "\<forall>p \<in> set ps. in_grid Width Height p"
  using assms
proof (induction ps rule: induct_list012)
  case (3 x y zs)
  then have "open_wall adj Width Height x y" by simp
  then have "in_grid Width Height y" by (simp add: open_wall_def)
  with 3 show ?case by auto
qed auto

lemma Solve_path_in_grid:
  assumes wf: "wf_grid adj Width Height" and start: "in_grid Width Height (sy, sx)"
    and res: "Solve adj Width Height sx sy fx fy path_out = Some (Inr (True, path))"
  shows "\<forall>p \<in> set path. in_grid Width Height p"
proof -
  from Solve_True_walk [OF assms]
  have "successively (open_wall adj Width Height) path" "hd path = (sy, sx)"
    unfolding simple_path_def by blast+
  with start show ?thesis using successively_open_wall_in_grid [of adj Width Height path] by simp
qed

lemma Generate_mask_own_walls:
  assumes "Generate fuel rng adj Width Height sx sy fx fy msk = Some (Inr g)" "p \<in> msk"
  shows "\<not> wall_open w g p"
  using Generate_inv(6) [OF assms(1), of w p] assms(2) by blast

lemma zeros_first:
  "gen_iter (\<lambda>i. 0) 2 2 (0, 0) (1, 1) {} (init_state grid_closed) =
     Some (Inr (Continue \<lparr>adj_out = grid_east, pos2ec = (\<lambda>p. p)((0, 1) := (0, 0)), rand_calls = 3,
                          total_iterations = 0, productive_iterations = 1\<rparr>))"
  by (simp add: gen_iter_def init_state_def rand_def drawn_def c_mod_def knock_def adj_at_def
        grid_closed_def Adjacency0_def in_grid_def ec_eq_def merge_def find_rep.simps
        set_wall_def grid_east_def)

lemma zeros_later:
  "gen_iter (\<lambda>i. 0) 2 2 (0, 0) (1, 1) {}
     \<lparr>adj_out = grid_east, pos2ec = h, rand_calls = k, total_iterations = t, productive_iterations = n\<rparr> =
   Some (Inr (Continue
     \<lparr>adj_out = grid_east, pos2ec = h, rand_calls = Suc (Suc (Suc k)), total_iterations = t,
      productive_iterations = n\<rparr>))"
  by (simp add: gen_iter_def rand_def drawn_def c_mod_def knock_def adj_at_def grid_east_def)

lemma zeros_stuck:
  "gen_loop fuel (\<lambda>i. 0) 2 2 (0, 0) (1, 1) {}
     \<lparr>adj_out = grid_east, pos2ec = h, rand_calls = k, total_iterations = t, productive_iterations = n\<rparr>
   = None"
  by (induction fuel arbitrary: k t) (simp_all add: zeros_later)

lemma zeros_never_return: "Generate fuel (\<lambda>i. 0) adj 2 2 0 0 1 1 {} = None"
proof (cases fuel)
  case 0
  then show ?thesis by (simp add: Generate_def init_grid_2x2)
next
  case (Suc n)
  then show ?thesis by (simp add: Generate_def init_grid_2x2 zeros_first zeros_stuck)
qed

lemma Generate_needs_removable_walk:
  assumes "\<not> connected (removable_step Width Height msk) (sy, sx) (fy, fx)"
  shows "Generate fuel rng adj Width Height sx sy fx fy msk \<noteq> Some (Inr g)"
proof
  assume run: "Generate fuel rng adj Width Height sx sy fx fy msk = Some (Inr g)"
  have "removable_step Width Height msk p q" if "open_wall g Width Height p q" for p q
    using that Generate_inv(6) [OF run]
    unfolding open_wall_def open_step_def removable_step_def by blast
  with Generate_inv(3) [OF run] have "connected (removable_step Width Height msk) (sy, sx) (fy, fx)"
    by (rule connected_mono)
  with assms show False by simp
qed

lemma corner_first:
  "gen_iter (rng_of [0, 0, 0, 1, 1, 0]) 2 2 (0, 0) (1, 1) {} (init_state grid_closed) =
     Some (Inr (Continue \<lparr>adj_out = grid_east, pos2ec = (\<lambda>p. p)((0, 1) := (0, 0)), rand_calls = 3,
                          total_iterations = 0, productive_iterations = 1\<rparr>))"
  by (simp add: gen_iter_def init_state_def rand_def drawn_def c_mod_def knock_def adj_at_def
        grid_closed_def Adjacency0_def in_grid_def ec_eq_def merge_def find_rep.simps
        set_wall_def grid_east_def rng_of_def)

lemma reach_state_east:
  "gen_reach (rng_of [0, 0, 0, 1, 1, 0]) 2 2 (0, 0) (1, 1) {} (init_state grid_closed) state_east"
  using reach_next [OF reach_first corner_first] by (simp add: state_east_def)

lemma corner_second:
  "\<exists>c. gen_iter (rng_of [0, 0, 0, 1, 1, 0]) 2 2 (0, 0) (1, 1) {} state_east = Some (Inr c) \<and>
       is_break c \<and> adj_out (ctl_state c) = grid_corner"
  by (simp add: gen_iter_def state_east_def rand_def drawn_def c_mod_def knock_def adj_at_def
        in_grid_def ec_eq_def merge_def find_rep.simps
        set_wall_def grid_east_def grid_corner_def rng_of_def)

lemma adj_out_state_east: "adj_out state_east = grid_east"
  by (simp add: state_east_def)

lemma walls_east_corner:
  "wall_open South grid_corner (0, 1)" "\<not> wall_open South grid_east (0, 1)"
  by (simp_all add: wall_open_def adj_at_def grid_corner_def grid_east_def)

lemma gen_reach_head:
  assumes i: "init_grid adj Width Height = Inr adj0"
    and r: "gen_reach rng Width Height start finish msk (init_state adj0) st"
    and c: "connected (open_wall (adj_out st) Width Height) start finish"
  shows "start = finish \<and> adj_out st = adj0"
proof -
  note inv0 = gen_inv_init [OF i, of msk]
  note inv = gen_reach_inv [OF r inv0]
  from c have "same_class (pos2ec st) start finish" by (simp add: gen_inv_classes [OF inv])
  with gen_reach_before_removal [OF r inv0] have a: "adj_out st = adj0"
    by (simp add: init_state_def)
  have "\<not> connected (open_wall adj0 Width Height) start finish" if "start \<noteq> finish"
    using init_grid_no_walls [OF i] that by (intro no_open_walls_disconnected) auto
  with c a show ?thesis by auto
qed

lemma gen_reach_break:
  assumes i: "init_grid adj Width Height = Inr adj0"
    and r: "gen_reach rng Width Height start finish msk (init_state adj0) st"
    and it: "gen_iter rng Width Height start finish msk st = Some (Inr c)"
  shows "is_break c \<longleftrightarrow>
           adj_out (ctl_state c) \<noteq> adj_out st \<and>
           connected (open_wall (adj_out (ctl_state c)) Width Height) start finish"
proof -
  note inv = gen_reach_inv [OF r gen_inv_init [OF i]]
  from gen_iter_cases [OF inv, of rng start finish] it
  have c: "gen_inv Width Height msk (ctl_state c)"
    and eff: "iteration_effect Width Height msk start finish st c" by auto
  from inv have wf: "wf_grid (adj_out st) Width Height" by (simp add: gen_inv_def)
  from iteration_effect_break [OF wf eff] show ?thesis
    by (simp add: gen_inv_classes [OF c])
qed

lemma gen_reach_progress:
  assumes i: "init_grid adj Width Height = Inr adj0"
    and r: "gen_reach rng Width Height start finish msk (init_state adj0) st"
    and big: "2 \<le> Width" "2 \<le> Height"
    and ends: "in_grid Width Height start" "in_grid Width Height finish"
  shows "\<exists>c. gen_iter rng Width Height start finish msk st = Some (Inr c)"
  using gen_iter_no_error [OF gen_reach_inv [OF r gen_inv_init [OF i]] big ends] .

section \<open>The claims\<close>

text \<open>
  Claim C1 (the code departs from it).  The claim: in the grid \<^verbatim>\<open>Generate\<close> returns no
  edge incident to a masked cell is open.  The loop tests the mask only for the cell
  \<open>(y, x)\<close> whose east or south wall it drew, never for the neighbour beyond that wall.
  Here the cell (0, 1) is masked, the stream draws the east wall of (0, 0), and the returned
  grid has \<^verbatim>\<open>adj[0][0].to_east\<close> set: the west wall of the masked cell is open.
\<close>

theorem Generate_opens_wall_into_masked_cell:
  "Generate 3 (rng_of [0, 0, 0, 1, 0, 0, 0, 0, 1]) [] 2 2 0 0 1 1 {(0, 1)} = Some (Inr grid_bend) \<and>
   beyond East (0, 0) = (0, 1) \<and> wall_open East grid_bend (0, 0)"
  using run_bend by (simp add: wall_open_def adj_at_def grid_bend_def)

text \<open>
  Claim C2.  In every state in which the loop of \<^verbatim>\<open>Generate\<close> is at its head the open
  walls form a forest.  An iteration removes a wall only between two cells of different
  union-find classes: every wall whose flag is set after the iteration and was not set
  before it is a wall between two cells of the grid that were in different classes when
  the iteration began; and the grid after the iteration is a forest again.  The grid that
  \<^verbatim>\<open>Generate\<close> returns is a forest and has exactly one simple path of open walls from
  start to finish.
\<close>

theorem Generate_keeps_forest:
  assumes "init_grid adj Width Height = Inr adj0"
    and "gen_reach rng Width Height (sy, sx) (fy, fx) msk (init_state adj0) st"
  shows "forest (open_wall (adj_out st) Width Height) \<and>
         (\<forall>c. gen_iter rng Width Height (sy, sx) (fy, fx) msk st = Some (Inr c) \<longrightarrow>
              removes_between_classes Width Height st (ctl_state c) \<and>
              forest (open_wall (adj_out (ctl_state c)) Width Height)) \<and>
         (\<forall>fuel g. Generate fuel rng adj Width Height sx sy fx fy msk = Some (Inr g) \<longrightarrow>
              forest (open_wall g Width Height) \<and>
              (\<exists>!ps. simple_path (open_wall g Width Height) (sy, sx) (fy, fx) ps))"
proof (intro conjI allI impI)
  show "forest (open_wall (adj_out st) Width Height)"
    by (rule gen_reach_forest [OF assms])
next
  fix c
  assume it: "gen_iter rng Width Height (sy, sx) (fy, fx) msk st = Some (Inr c)"
  show "removes_between_classes Width Height st (ctl_state c)"
    by (rule gen_reach_step(1) [OF assms it])
  show "forest (open_wall (adj_out (ctl_state c)) Width Height)"
    by (rule gen_reach_step(2) [OF assms it])
next
  fix fuel g
  assume run: "Generate fuel rng adj Width Height sx sy fx fy msk = Some (Inr g)"
  show "forest (open_wall g Width Height)" by (rule Generate_inv(2) [OF run])
  show "\<exists>!ps. simple_path (open_wall g Width Height) (sy, sx) (fy, fx) ps"
    by (rule Generate_unique_path [OF run])
qed

theorem Generate_keeps_forest_witness:
  "init_grid [] 2 2 = Inr grid_closed \<and>
   gen_reach (rng_of [0, 0, 0, 1, 1, 0]) 2 2 (0, 0) (1, 1) {} (init_state grid_closed) state_east \<and>
   forest (open_wall grid_east 2 2) \<and>
   (\<exists>c. gen_iter (rng_of [0, 0, 0, 1, 1, 0]) 2 2 (0, 0) (1, 1) {} state_east = Some (Inr c) \<and>
        adj_out (ctl_state c) = grid_corner \<and>
        removes_between_classes 2 2 state_east (ctl_state c)) \<and>
   wall_open South grid_corner (0, 1) \<and> \<not> wall_open South grid_east (0, 1) \<and>
   \<not> same_class (pos2ec state_east) (0, 1) (beyond South (0, 1)) \<and>
   forest (open_wall grid_corner 2 2) \<and>
   Generate 2 (rng_of [0, 0, 0, 1, 1, 0]) [] 2 2 0 0 1 1 {} = Some (Inr grid_corner) \<and>
   (\<exists>!ps. simple_path (open_wall grid_corner 2 2) (0, 0) (1, 1) ps)"
proof -
  have i: "init_grid [] 2 2 = Inr grid_closed" by (rule init_grid_2x2)
  note r = reach_state_east
  note kf = Generate_keeps_forest [OF i r]
  from corner_second obtain c where
    c: "gen_iter (rng_of [0, 0, 0, 1, 1, 0]) 2 2 (0, 0) (1, 1) {} state_east = Some (Inr c)"
       "adj_out (ctl_state c) = grid_corner" by blast
  from kf have f1: "forest (open_wall grid_east 2 2)" by (simp add: state_east_def)
  from kf c(1) have rm: "removes_between_classes 2 2 state_east (ctl_state c)"
    and f2: "forest (open_wall (adj_out (ctl_state c)) 2 2)" by blast+
  from walls_east_corner
  have "wall_open South (adj_out (ctl_state c)) (0, 1) \<and> \<not> wall_open South (adj_out state_east) (0, 1)"
    by (simp add: c(2) adj_out_state_east)
  with rm have ns: "\<not> same_class (pos2ec state_east) (0, 1) (beyond South (0, 1))"
    unfolding removes_between_classes_def by blast
  from kf run_corner have u: "\<exists>!ps. simple_path (open_wall grid_corner 2 2) (0, 0) (1, 1) ps"
    by blast
  from f2 have f2': "forest (open_wall grid_corner 2 2)" by (simp add: c(2))
  from c rm have "\<exists>c. gen_iter (rng_of [0, 0, 0, 1, 1, 0]) 2 2 (0, 0) (1, 1) {} state_east = Some (Inr c) \<and>
        adj_out (ctl_state c) = grid_corner \<and>
        removes_between_classes 2 2 state_east (ctl_state c)" by blast
  with i r f1 ns f2' u run_corner walls_east_corner show ?thesis by blast
qed

text \<open>
  Claim C3.  When \<^verbatim>\<open>Generate\<close> returns, open walls connect start and finish, and
  \<^verbatim>\<open>Solve\<close> on the returned grid succeeds (for every mask, the empty one included).
  It returns as soon as that is so: an iteration leaves the loop exactly when it removes a
  wall and start and finish are connected afterwards, in particular when it joins start
  and finish, and \<^verbatim>\<open>Generate\<close> then returns the grid of that iteration; while the loop
  is at its head, start and finish are connected only if they are the same cell and no
  wall has been removed yet.  With Width and Height at least 2 and start and finish in the
  grid every iteration ends without an error.  \<^verbatim>\<open>Generate\<close> does not wait for the whole
  grid: for some stream the returned grid has a cell that no open wall connects to the
  start.
\<close>

theorem Generate_stops_at_first_connection:
  "(\<forall>g. Generate fuel rng adj Width Height sx sy fx fy msk = Some (Inr g) \<longrightarrow>
        connected (open_wall g Width Height) (sy, sx) (fy, fx) \<and>
        (\<exists>path. Solve g Width Height sx sy fx fy path_out = Some (Inr (True, path)))) \<and>
   (\<forall>adj0 st c. init_grid adj Width Height = Inr adj0 \<and>
        gen_reach rng Width Height (sy, sx) (fy, fx) msk (init_state adj0) st \<and>
        gen_iter rng Width Height (sy, sx) (fy, fx) msk st = Some (Inr c) \<longrightarrow>
        (is_break c \<longleftrightarrow>
           adj_out (ctl_state c) \<noteq> adj_out st \<and>
           connected (open_wall (adj_out (ctl_state c)) Width Height) (sy, sx) (fy, fx)) \<and>
        (\<not> connected (open_wall (adj_out st) Width Height) (sy, sx) (fy, fx) \<and>
         connected (open_wall (adj_out (ctl_state c)) Width Height) (sy, sx) (fy, fx)
           \<longrightarrow> is_break c) \<and>
        (is_break c \<longrightarrow>
           (\<exists>fuel'. Generate fuel' rng adj Width Height sx sy fx fy msk
                      = Some (Inr (adj_out (ctl_state c)))))) \<and>
   (\<forall>adj0 st. init_grid adj Width Height = Inr adj0 \<and>
        gen_reach rng Width Height (sy, sx) (fy, fx) msk (init_state adj0) st \<and>
        connected (open_wall (adj_out st) Width Height) (sy, sx) (fy, fx) \<longrightarrow>
        (sy, sx) = (fy, fx) \<and> adj_out st = adj0) \<and>
   (\<forall>adj0 st. 2 \<le> Width \<and> 2 \<le> Height \<and>
        in_grid Width Height (sy, sx) \<and> in_grid Width Height (fy, fx) \<and>
        init_grid adj Width Height = Inr adj0 \<and>
        gen_reach rng Width Height (sy, sx) (fy, fx) msk (init_state adj0) st \<longrightarrow>
        (\<exists>c. gen_iter rng Width Height (sy, sx) (fy, fx) msk st = Some (Inr c))) \<and>
   (\<exists>fuel' rng' g c. Generate fuel' rng' [] 2 2 0 0 1 1 {} = Some (Inr g) \<and>
        in_grid 2 2 c \<and> \<not> connected (open_wall g 2 2) (0, 0) c)"
proof (intro conjI allI impI)
  fix g
  assume run: "Generate fuel rng adj Width Height sx sy fx fy msk = Some (Inr g)"
  from Generate_inv(3) [OF run]
  show "connected (open_wall g Width Height) (sy, sx) (fy, fx)" .
  from Generate_Solve [OF run, of path_out]
  show "\<exists>path. Solve g Width Height sx sy fx fy path_out = Some (Inr (True, path))" by blast
next
  fix adj0 st c
  assume a: "init_grid adj Width Height = Inr adj0 \<and>
        gen_reach rng Width Height (sy, sx) (fy, fx) msk (init_state adj0) st \<and>
        gen_iter rng Width Height (sy, sx) (fy, fx) msk st = Some (Inr c)"
  then have i: "init_grid adj Width Height = Inr adj0"
    and r: "gen_reach rng Width Height (sy, sx) (fy, fx) msk (init_state adj0) st"
    and it: "gen_iter rng Width Height (sy, sx) (fy, fx) msk st = Some (Inr c)" by blast+
  note br = gen_reach_break [OF i r it]
  show "is_break c \<longleftrightarrow>
           adj_out (ctl_state c) \<noteq> adj_out st \<and>
           connected (open_wall (adj_out (ctl_state c)) Width Height) (sy, sx) (fy, fx)"
    by (rule br)
  show "is_break c"
    if j: "\<not> connected (open_wall (adj_out st) Width Height) (sy, sx) (fy, fx) \<and>
         connected (open_wall (adj_out (ctl_state c)) Width Height) (sy, sx) (fy, fx)"
  proof -
    from j have "adj_out (ctl_state c) \<noteq> adj_out st" by auto
    with j br show ?thesis by blast
  qed
  show "\<exists>fuel'. Generate fuel' rng adj Width Height sx sy fx fy msk
                      = Some (Inr (adj_out (ctl_state c)))" if b: "is_break c"
  proof -
    from b obtain st' where "c = Break st'" by (cases c) auto
    with it Generate_returns_at_break [OF i r, of st'] show ?thesis by simp
  qed
next
  fix adj0 st
  assume "init_grid adj Width Height = Inr adj0 \<and>
        gen_reach rng Width Height (sy, sx) (fy, fx) msk (init_state adj0) st \<and>
        connected (open_wall (adj_out st) Width Height) (sy, sx) (fy, fx)"
  then have h: "(sy, sx) = (fy, fx) \<and> adj_out st = adj0" using gen_reach_head by blast
  from h show "(sy, sx) = (fy, fx)" ..
  from h show "adj_out st = adj0" ..
next
  fix adj0 st
  assume "2 \<le> Width \<and> 2 \<le> Height \<and>
        in_grid Width Height (sy, sx) \<and> in_grid Width Height (fy, fx) \<and>
        init_grid adj Width Height = Inr adj0 \<and>
        gen_reach rng Width Height (sy, sx) (fy, fx) msk (init_state adj0) st"
  then show "\<exists>c. gen_iter rng Width Height (sy, sx) (fy, fx) msk st = Some (Inr c)"
    using gen_reach_progress by blast
next
  have "in_grid 2 2 (1, 0)" by (simp add: in_grid_def)
  moreover have "\<not> connected (open_wall grid_corner 2 2) (0, 0) (1, 0)"
    using Solve_False_disconnected [OF corner_alone] .
  ultimately show "\<exists>fuel' rng' g c. Generate fuel' rng' [] 2 2 0 0 1 1 {} = Some (Inr g) \<and>
        in_grid 2 2 c \<and> \<not> connected (open_wall g 2 2) (0, 0) c"
    using run_corner by blast
qed

theorem Generate_stops_at_first_connection_witness:
  "init_grid [] 2 2 = Inr grid_closed \<and>
   gen_reach (rng_of [0, 0, 0, 1, 1, 0]) 2 2 (0, 0) (1, 1) {} (init_state grid_closed) state_east \<and>
   \<not> connected (open_wall grid_east 2 2) (0, 0) (1, 1) \<and>
   (\<exists>c. gen_iter (rng_of [0, 0, 0, 1, 1, 0]) 2 2 (0, 0) (1, 1) {} state_east = Some (Inr c) \<and>
        adj_out (ctl_state c) = grid_corner \<and> is_break c) \<and>
   connected (open_wall grid_corner 2 2) (0, 0) (1, 1) \<and>
   (\<exists>fuel'. Generate fuel' (rng_of [0, 0, 0, 1, 1, 0]) [] 2 2 0 0 1 1 {} = Some (Inr grid_corner)) \<and>
   (\<exists>path. Solve grid_corner 2 2 0 0 1 1 [] = Some (Inr (True, path)))"
proof -
  let ?rng = "rng_of [0, 0, 0, 1, 1, 0]"
  have i: "init_grid [] 2 2 = Inr grid_closed" by (rule init_grid_2x2)
  note r = reach_state_east
  from Generate_stops_at_first_connection [of 2 ?rng "[]" 2 2 0 0 1 1 "{}" "[]"]
  have ret: "\<forall>g. Generate 2 ?rng [] 2 2 0 0 1 1 {} = Some (Inr g) \<longrightarrow>
        connected (open_wall g 2 2) (0, 0) (1, 1) \<and>
        (\<exists>path. Solve g 2 2 0 0 1 1 [] = Some (Inr (True, path)))"
    and step: "\<forall>adj0 st c. init_grid [] 2 2 = Inr adj0 \<and>
        gen_reach ?rng 2 2 (0, 0) (1, 1) {} (init_state adj0) st \<and>
        gen_iter ?rng 2 2 (0, 0) (1, 1) {} st = Some (Inr c) \<longrightarrow>
        (is_break c \<longleftrightarrow>
           adj_out (ctl_state c) \<noteq> adj_out st \<and>
           connected (open_wall (adj_out (ctl_state c)) 2 2) (0, 0) (1, 1)) \<and>
        (\<not> connected (open_wall (adj_out st) 2 2) (0, 0) (1, 1) \<and>
         connected (open_wall (adj_out (ctl_state c)) 2 2) (0, 0) (1, 1)
           \<longrightarrow> is_break c) \<and>
        (is_break c \<longrightarrow>
           (\<exists>fuel'. Generate fuel' ?rng [] 2 2 0 0 1 1 {} = Some (Inr (adj_out (ctl_state c)))))"
    and head: "\<forall>adj0 st. init_grid [] 2 2 = Inr adj0 \<and>
        gen_reach ?rng 2 2 (0, 0) (1, 1) {} (init_state adj0) st \<and>
        connected (open_wall (adj_out st) 2 2) (0, 0) (1, 1) \<longrightarrow>
        ((0, 0) :: Pos) = (1, 1) \<and> adj_out st = adj0"
    by blast+
  have ne: "((0, 0) :: Pos) \<noteq> (1, 1)" by simp
  from head i r ne have apart: "\<not> connected (open_wall (adj_out state_east) 2 2) (0, 0) (1, 1)"
    by blast
  then have apart': "\<not> connected (open_wall grid_east 2 2) (0, 0) (1, 1)"
    by (simp add: adj_out_state_east)
  from ret run_corner have joined: "connected (open_wall grid_corner 2 2) (0, 0) (1, 1)"
    and solved: "\<exists>path. Solve grid_corner 2 2 0 0 1 1 [] = Some (Inr (True, path))" by blast+
  from corner_second obtain c where
    c: "gen_iter ?rng 2 2 (0, 0) (1, 1) {} state_east = Some (Inr c)"
       "adj_out (ctl_state c) = grid_corner" by blast
  from joined have joined': "connected (open_wall (adj_out (ctl_state c)) 2 2) (0, 0) (1, 1)"
    by (simp add: c(2))
  from step i r c(1) apart joined' have b: "is_break c" by blast
  from step i r c(1) b
  have "\<exists>fuel'. Generate fuel' ?rng [] 2 2 0 0 1 1 {} = Some (Inr (adj_out (ctl_state c)))"
    by blast
  then have fuel: "\<exists>fuel'. Generate fuel' ?rng [] 2 2 0 0 1 1 {} = Some (Inr grid_corner)"
    by (simp add: c(2))
  from c b have "\<exists>c. gen_iter ?rng 2 2 (0, 0) (1, 1) {} state_east = Some (Inr c) \<and>
        adj_out (ctl_state c) = grid_corner \<and> is_break c" by blast
  with i r apart' joined fuel solved show ?thesis by blast
qed

text \<open>
  Claim C4.  On every grid of Height rows and Width columns and for every start cell inside
  it, \<^verbatim>\<open>Solve\<close> returns, and it returns true if and only if a walk of open-wall steps
  leads from start to finish; false is returned when the fringe is exhausted, which is
  then exactly the case where no such walk exists.  In particular, on a grid without any
  open wall and with start different from finish it returns false.
\<close>

theorem Solve_true_iff_connected:
  assumes "wf_grid adj Width Height" and "in_grid Width Height (sy, sx)"
  shows "\<exists>b path. Solve adj Width Height sx sy fx fy path_out = Some (Inr (b, path)) \<and>
           (b \<longleftrightarrow> connected (open_wall adj Width Height) (sy, sx) (fy, fx)) \<and>
           ((\<forall>p. \<not> wall_open East adj p \<and> \<not> wall_open South adj p) \<and> (sy, sx) \<noteq> (fy, fx)
              \<longrightarrow> \<not> b)"
  using Solve_decides [OF assms, of fx fy path_out] no_open_walls_disconnected [of adj "(sy, sx)" "(fy, fx)"]
  by blast

theorem Solve_true_iff_connected_witness:
  "wf_grid grid_closed 2 2 \<and> in_grid 2 2 (0, 0) \<and>
   (\<forall>p. \<not> wall_open East grid_closed p \<and> \<not> wall_open South grid_closed p) \<and>
   ((0, 0) :: Pos) \<noteq> (1, 1) \<and>
   Solve grid_closed 2 2 0 0 1 1 [] = Some (Inr (False, [])) \<and>
   \<not> connected (open_wall grid_closed 2 2) (0, 0) (1, 1)"
proof -
  have wf: "wf_grid grid_closed 2 2" by (simp add: wf_grid_def grid_closed_def)
  have st: "in_grid 2 2 (0, 0)" by (simp add: in_grid_def)
  have run: "Solve grid_closed 2 2 0 0 1 1 [] = Some (Inr (False, []))" by code_simp
  from Solve_true_iff_connected [OF wf st, of 1 1 "[]"] run grid_closed_no_walls wf st
  show ?thesis by auto
qed

text \<open>
  Claim C5.  Whenever \<^verbatim>\<open>Solve\<close> returns true, the path it stores begins at start, ends
  at finish, has no coordinate twice, and each coordinate is one cardinal step from the
  one before it, across a wall whose flag is set in the grid.
\<close>

theorem Solve_path_simple_and_open:
  assumes "Solve adj Width Height sx sy fx fy path_out = Some (Inr (True, path))"
  shows "path \<noteq> [] \<and> hd path = (sy, sx) \<and> last path = (fy, fx) \<and> distinct path \<and>
         successively (open_step adj) path"
  using Solve_True_trail [OF assms] by (simp add: trail_def)

theorem Solve_path_simple_and_open_witness:
  "Solve grid_bend 2 2 0 0 1 1 [] = Some (Inr (True, [(0, 0), (1, 0), (1, 1)])) \<and>
   successively (open_step grid_bend) [(0, 0), (1, 0), (1, 1)]"
proof -
  have run: "Solve grid_bend 2 2 0 0 1 1 [] = Some (Inr (True, [(0, 0), (1, 0), (1, 1)]))"
    by code_simp
  from Solve_path_simple_and_open [OF run] run show ?thesis by simp
qed

text \<open>
  Claim C6, as stated, fails.  The claim: on the grid of two rows and two columns with
  start (0, 0), finish (1, 1) and no mask, every stream makes \<^verbatim>\<open>Generate\<close> remove
  exactly 3 walls.  The stream that draws the east wall of (0, 0) and then the south wall
  of (0, 1) connects start and finish with 2 walls, and \<^verbatim>\<open>Generate\<close> returns there.
\<close>

theorem two_by_two_three_walls_counterexample:
  "Generate 2 (rng_of [0, 0, 0, 1, 1, 0]) [] 2 2 0 0 1 1 {} = Some (Inr grid_corner) \<and>
   walls_removed grid_corner \<noteq> 3"
  using run_corner walls_corner by simp

text \<open>
  Claim C6, amended.  Whenever \<^verbatim>\<open>Generate\<close> returns on the grid of two rows and two
  columns with start (0, 0), finish (1, 1) and no mask, it has removed 2 or 3 of the 4
  inner walls, and \<^verbatim>\<open>Solve\<close> on the returned grid finds a path of exactly 3 cells.
\<close>

theorem two_by_two_walls_and_path:
  assumes "Generate fuel rng adj 2 2 0 0 1 1 {} = Some (Inr g)"
  shows "(walls_removed g = 2 \<or> walls_removed g = 3) \<and>
         (\<exists>path. Solve g 2 2 0 0 1 1 path_out = Some (Inr (True, path)) \<and> length path = 3)"
  using assms by (rule Generate_2x2)

theorem two_by_two_walls_and_path_witness:
  "Generate 3 (rng_of [0, 0, 0, 1, 0, 0, 0, 0, 1]) [] 2 2 0 0 1 1 {} = Some (Inr grid_bend) \<and>
   walls_removed grid_bend = 3 \<and>
   Solve grid_bend 2 2 0 0 1 1 [] = Some (Inr (True, [(0, 0), (1, 0), (1, 1)]))"
proof -
  have run: "Generate 3 (rng_of [0, 0, 0, 1, 0, 0, 0, 0, 1]) [] 2 2 0 0 1 1 {} = Some (Inr grid_bend)"
    by code_simp
  have s: "Solve grid_bend 2 2 0 0 1 1 [] = Some (Inr (True, [(0, 0), (1, 0), (1, 1)]))"
    by code_simp
  from two_by_two_walls_and_path [OF run, of "[]"] have "walls_removed grid_bend = 2 \<or> walls_removed grid_bend = 3"
    by blast
  moreover have "walls_removed grid_bend \<noteq> 2" by (simp add: walls_removed_def grid_bend_def)
  ultimately show ?thesis using run s by simp
qed

text \<open>
  Claim C7 (the code departs from it).  The claim: when no walk through unmasked cells
  joins start and finish, \<^verbatim>\<open>Generate\<close> never returns.  Since the mask is tested only
  for the cell whose east or south wall was drawn, walls into a masked cell from its west
  and north neighbours are removed, and a masked cell can join two unmasked ones.  Here the
  cells (0, 0) and (1, 1) are masked, start is (1, 0) and finish is (0, 1); the run opens
  the east wall of (1, 0) and the south wall of (0, 1), both into the masked cell (1, 1),
  and returns after two iterations.
\<close>

theorem Generate_returns_though_mask_disconnects:
  "\<not> connected (free_step 2 2 {(0, 0), (1, 1)}) (1, 0) (0, 1) \<and>
   Generate 2 (rng_of [0, 0, 1, 1, 1, 0]) [] 2 2 0 1 1 0 {(0, 0), (1, 1)} = Some (Inr grid_through)"
  using mask_disconnects_example run_through by simp

text \<open>
  Claim C8.  On a grid of Height rows and Width columns and with the start inside it, no
  read \<^verbatim>\<open>Solve\<close> makes of the adjacency array is out of bounds: the run ends with a
  result, never with the error \<open>OutOfBounds\<close> that a read outside the vectors gives in
  the model, and a path it returns stays inside the grid, a neighbour outside the grid
  being no edge.
\<close>

theorem Solve_in_bounds:
  assumes "wf_grid adj Width Height" and "in_grid Width Height (sy, sx)"
  shows "Solve adj Width Height sx sy fx fy path_out \<noteq> Some (Inl OutOfBounds) \<and>
         (\<exists>b path. Solve adj Width Height sx sy fx fy path_out = Some (Inr (b, path)) \<and>
            (b \<longrightarrow> (\<forall>p \<in> set path. in_grid Width Height p)))"
proof -
  from Solve_returns [OF assms, of fx fy path_out] obtain b path where
    r: "Solve adj Width Height sx sy fx fy path_out = Some (Inr (b, path))" by blast
  have "\<forall>p \<in> set path. in_grid Width Height p" if b
    using Solve_path_in_grid [OF assms, of fx fy path_out path] r that by simp
  with r show ?thesis by auto
qed

theorem Solve_in_bounds_witness:
  "wf_grid grid_bend 2 2 \<and> in_grid 2 2 (0, 0) \<and>
   Solve grid_bend 2 2 0 0 1 1 [] \<noteq> Some (Inl OutOfBounds) \<and>
   Solve grid_bend 2 2 0 0 1 1 [] = Some (Inr (True, [(0, 0), (1, 0), (1, 1)])) \<and>
   in_grid 2 2 (1, 0) \<and> in_grid 2 2 (1, 1)"
proof -
  have wf: "wf_grid grid_bend 2 2" by (simp add: wf_grid_def grid_bend_def)
  have st: "in_grid 2 2 (0, 0)" by (simp add: in_grid_def)
  have run: "Solve grid_bend 2 2 0 0 1 1 [] = Some (Inr (True, [(0, 0), (1, 0), (1, 1)]))"
    by code_simp
  from Solve_in_bounds [OF wf st, of 1 1 "[]"] run wf st show ?thesis by auto
qed

text \<open>
  Claim C9.  \<^verbatim>\<open>Generate\<close> is deterministic: two runs on the same stream of random
  numbers, width, height, start, finish and mask give the same result, whatever
  \<^verbatim>\<open>adj_out\<close> held at either call and however many iterations either run is allowed.
\<close>

theorem Generate_same_stream_same_grid:
  assumes "Generate fuel1 rng adj1 Width Height sx sy fx fy msk = Some r1"
    and "Generate fuel2 rng adj2 Width Height sx sy fx fy msk = Some r2"
  shows "r1 = r2"
  using assms by (rule Generate_deterministic)

theorem Generate_same_stream_same_grid_witness:
  "Generate 2 (rng_of [0, 0, 0, 1, 1, 0]) [] 2 2 0 0 1 1 {} = Some (Inr grid_corner) \<and>
   Generate 5 (rng_of [0, 0, 0, 1, 1, 0]) grid_bend 2 2 0 0 1 1 {} = Some (Inr grid_corner)"
proof -
  have "Generate 5 (rng_of [0, 0, 0, 1, 1, 0]) grid_bend 2 2 0 0 1 1 {} \<noteq> None"
    by code_simp
  then obtain r where r: "Generate 5 (rng_of [0, 0, 0, 1, 1, 0]) grid_bend 2 2 0 0 1 1 {} = Some r"
    by blast
  from Generate_same_stream_same_grid [OF run_corner r] r run_corner show ?thesis by simp
qed

text \<open>
  Claim C10.  When \<^verbatim>\<open>Solve\<close> returns false, \<^verbatim>\<open>path_out\<close> holds what the caller
  passed in.
\<close>

theorem Solve_false_keeps_path_out:
  assumes "Solve adj Width Height sx sy fx fy path_out = Some (Inr (False, path))"
  shows "path = path_out"
  using solve_loop_False_frame [OF assms [unfolded Solve_def]] by simp

theorem Solve_false_keeps_path_out_witness:
  "\<exists>path. Solve grid_closed 2 2 0 0 1 1 [(7, 7)] = Some (Inr (False, path)) \<and> path = [(7, 7)]"
proof -
  have run: "Solve grid_closed 2 2 0 0 1 1 [(7, 7)] = Some (Inr (False, [(7, 7)]))"
    by code_simp
  from Solve_false_keeps_path_out [OF run] run show ?thesis by simp
qed

end
